theory Spec2Isabelle
  imports Main
begin

unbundle bit_operations_syntax

section \<open>Data model of wires.py\<close>

text \<open>
  Python objects are shared and mutated in place: the same \<open>MidiDevice\<close> object sits in the
  Station's lists and in the \<open>forwards\<close> of other devices. Devices therefore live in a
  store, addressed by \<open>addr\<close>. An rtmidi \<open>MidiIn()\<close> / \<open>MidiOut()\<close> object is a
  \<open>handle\<close>, drawn fresh from a counter. A MIDI message is the list of Python ints that
  rtmidi delivers.
\<close>

type_synonym addr = nat
type_synonym handle = nat
type_synonym message = "int list"

text \<open>
  A device specification of the wiring table: a plain \<open>str\<close> (substring match) or an
  \<open>ExactMatch\<close> object.
\<close>

datatype user_spec = Str string | ExactMatch string

text \<open>
  A channel entry of the wiring table: the \<open>AllChannels\<close> instance or a Python int.
\<close>

datatype channel = AllChannels | Chan int

type_synonym rule = "user_spec \<times> channel \<times> user_spec"
type_synonym wiring = "rule list"

record MidiDevice =
  full_name :: string
  port :: nat
  input_h :: "handle option"
  output_h :: "handle option"
  forwards :: "(addr \<times> channel) list"

text \<open>
  What the program does to the outside: calls into the rtmidi driver and lines printed to
  stderr. The text of a diagnostic is kept as its kind and the spec it names.
\<close>

datatype diag = CantFindInput user_spec | CantFindOutput user_spec | Skipping

datatype event =
    OpenIn handle nat
  | SetCallback handle addr
  | CloseIn handle
  | OpenOut handle nat
  | SendMessage handle message
  | CloseOut handle
  | Stderr diag

text \<open>
  The exceptions the modelled code can raise: \<open>ValueError("No wiring set")\<close> of
  \<open>rewire\<close> (the spec's NoPriorWiring), \<open>Exception("More than one devices match ...")\<close>
  of \<open>__find_matching_device\<close> (the spec's AmbiguousSpec), the \<open>AttributeError\<close> of
  \<open>self.output.send_message\<close> when \<open>self.output\<close> is \<open>None\<close> (the spec's NotOpen), and the
  \<open>IndexError\<close> of \<open>message[0]\<close> on an empty message.
\<close>

datatype error =
    NoWiringSet
  | MoreThanOneMatch user_spec
  | AttributeError
  | IndexError

text \<open>
  The whole state: the three fields of the one \<open>Station\<close>, the store of devices, and the
  driver (the port names it currently reports, the handle counter, and the trace of events).
  Driver calls are taken to succeed.
\<close>

record world =
  input_devices :: "addr list"
  output_devices :: "addr list"
  last_wiring :: "wiring option"
  devices :: "addr \<Rightarrow> MidiDevice"
  next_dev :: addr
  in_ports :: "string list"
  out_ports :: "string list"
  next_handle :: handle
  trace :: "event list"

definition emit :: "event \<Rightarrow> world \<Rightarrow> world" where
  "emit e s = s\<lparr>trace := trace s @ [e]\<rparr>"

text \<open>\<open>rtmidi.MidiIn()\<close> and \<open>rtmidi.MidiOut()\<close>: a new driver object.\<close>

definition new_midi :: "world \<Rightarrow> handle \<times> world" where
  "new_midi s = (next_handle s, s\<lparr>next_handle := Suc (next_handle s)\<rparr>)"

text \<open>\<open>MidiDevice.__init__\<close>, and \<open>MidiDevice(full_name, port)\<close>: a new object in the store.\<close>

definition MidiDevice_init :: "string \<Rightarrow> nat \<Rightarrow> MidiDevice" where
  "MidiDevice_init name p =
     \<lparr>full_name = name, port = p, input_h = None, output_h = None, forwards = []\<rparr>"

definition new_device :: "string \<Rightarrow> nat \<Rightarrow> world \<Rightarrow> addr \<times> world" where
  "new_device name p s =
     (next_dev s,
      s\<lparr>devices := (devices s)(next_dev s := MidiDevice_init name p),
        next_dev := Suc (next_dev s)\<rparr>)"

section \<open>Specification matching\<close>

text \<open>
  \<open>str.lower()\<close> is Python's, not the program's. Below it is a parameter of
  \<open>matches_by\<close>; \<open>lower\<close> is what it does on ASCII text (the letters A to Z go to a to z,
  every other character stays), and the Station is modelled with \<open>lower\<close>, that is, for
  port names and specs in ASCII.
\<close>

definition lower_char :: "char \<Rightarrow> char" where
  "lower_char c =
     (let n = (of_char c :: nat) in if 65 \<le> n \<and> n \<le> 90 then char_of (n + 32) else c)"

definition lower :: "string \<Rightarrow> string" where
  "lower xs = map lower_char xs"

text \<open>Python's \<open>a in b\<close> on strings: \<open>a\<close> occurs in \<open>b\<close> as a contiguous run.\<close>

fun startswith :: "string \<Rightarrow> string \<Rightarrow> bool" where
  "startswith [] ys = True"
| "startswith (x # xs) [] = False"
| "startswith (x # xs) (y # ys) = (x = y \<and> startswith xs ys)"

fun str_in :: "string \<Rightarrow> string \<Rightarrow> bool" where
  "str_in a [] = (a = [])"
| "str_in a (c # cs) = (startswith a (c # cs) \<or> str_in a cs)"

text \<open>
  \<open>MidiDevice.matches\<close>, with \<open>str.lower\<close> as the parameter \<open>lw\<close>: a \<open>str\<close> spec is
  compared by lower-cased containment; anything else by \<open>user_spec == self.full_name\<close>,
  which for an \<open>ExactMatch\<close> is \<open>self.name == other\<close>. \<open>matches\<close> is the method on ASCII
  text.
\<close>

fun matches_by :: "(string \<Rightarrow> string) \<Rightarrow> MidiDevice \<Rightarrow> user_spec \<Rightarrow> bool" where
  "matches_by lw dev (Str u) = str_in (lw u) (lw (full_name dev))"
| "matches_by lw dev (ExactMatch n) = (n = full_name dev)"

definition matches :: "MidiDevice \<Rightarrow> user_spec \<Rightarrow> bool" where
  "matches dev spec = matches_by lower dev spec"

text \<open>
  \<open>channel == midi_channel + 1\<close> in the callback: \<open>AllChannels.__eq__\<close> answers \<open>True\<close>
  to everything, an int is compared as an int.
\<close>

fun channel_eq :: "channel \<Rightarrow> int \<Rightarrow> bool" where
  "channel_eq AllChannels x = True"
| "channel_eq (Chan n) x = (n = x)"

section \<open>Device operations\<close>

text \<open>\<open>MidiDevice.prepare_for_output\<close>\<close>

definition prepare_for_output :: "addr \<Rightarrow> world \<Rightarrow> world" where
  "prepare_for_output a s =
     (if output_h (devices s a) = None then
        (let (h, s1) = new_midi s;
             s2 = s1\<lparr>devices := (devices s1)(a := (devices s1 a)\<lparr>output_h := Some h\<rparr>)\<rparr>
         in emit (OpenOut h (port (devices s2 a))) s2)
      else s)"

text \<open>\<open>MidiDevice.send_message\<close>\<close>

definition send_message :: "addr \<Rightarrow> message \<Rightarrow> world \<Rightarrow> (error + unit) \<times> world" where
  "send_message a m s =
     (case output_h (devices s a) of
        None \<Rightarrow> (Inl AttributeError, s)
      | Some h \<Rightarrow> (Inr (), emit (SendMessage h m) s))"

text \<open>\<open>MidiDevice.forward_messages\<close>\<close>

definition forward_messages :: "addr \<Rightarrow> addr \<Rightarrow> channel \<Rightarrow> world \<Rightarrow> world" where
  "forward_messages a out ch s =
     (let s1 = prepare_for_output out s;
          (h, s2) = new_midi s1;
          s3 = s2\<lparr>devices := (devices s2)(a := (devices s2 a)\<lparr>input_h := Some h\<rparr>)\<rparr>;
          s4 = emit (OpenIn h (port (devices s3 a))) s3;
          s5 = emit (SetCallback h a) s4
      in s5\<lparr>devices := (devices s5)(a :=
              (devices s5 a)\<lparr>forwards := forwards (devices s5 a) @ [(out, ch)]\<rparr>)\<rparr>)"

text \<open>
  \<open>MidiDevice.callback\<close>: the loop over \<open>self.forwards\<close>, then the method. The second
  component of \<open>midi_data\<close> and the second argument are not used.
\<close>

fun forward_loop ::
  "(addr \<times> channel) list \<Rightarrow> int \<Rightarrow> message \<Rightarrow> world \<Rightarrow> (error + unit) \<times> world" where
  "forward_loop [] midi_channel m s = (Inr (), s)"
| "forward_loop ((out, ch) # rest) midi_channel m s =
     (if channel_eq ch (midi_channel + 1) then
        (case send_message out m s of
           (Inl e, s') \<Rightarrow> (Inl e, s')
         | (Inr u, s') \<Rightarrow> forward_loop rest midi_channel m s')
      else forward_loop rest midi_channel m s)"

definition callback ::
  "addr \<Rightarrow> message \<times> 'd \<Rightarrow> 'u \<Rightarrow> world \<Rightarrow> (error + unit) \<times> world" where
  "callback a midi_data u s =
     (case midi_data of (m, delta) \<Rightarrow>
        (case m of
           [] \<Rightarrow> (Inl IndexError, s)
         | b # bs \<Rightarrow> forward_loop (forwards (devices s a)) (b AND 0x0f) m s))"

text \<open>
  The constants of \<open>rtmidi.midiconstants\<close> that the code imports, with the values that
  library gives them.
\<close>

definition CONTROL_CHANGE :: int where "CONTROL_CHANGE = 0xB0"
definition ALL_SOUND_OFF :: int where "ALL_SOUND_OFF = 0x78"
definition ALL_NOTES_OFF :: int where "ALL_NOTES_OFF = 0x7B"
definition RESET_ALL_CONTROLLERS :: int where "RESET_ALL_CONTROLLERS = 0x79"

text \<open>\<open>MidiDevice.close\<close>\<close>

definition close :: "addr \<Rightarrow> world \<Rightarrow> world" where
  "close a s =
     (let s1 = (case input_h (devices s a) of
                  None \<Rightarrow> s
                | Some h \<Rightarrow>
                    (let t = emit (CloseIn h) s
                     in t\<lparr>devices := (devices t)(a := (devices t a)\<lparr>input_h := None\<rparr>)\<rparr>))
      in (case output_h (devices s1 a) of
            None \<Rightarrow> s1
          | Some h \<Rightarrow>
              (let t1 = emit (SendMessage h [CONTROL_CHANGE, ALL_SOUND_OFF, 0]) s1;
                   t2 = emit (SendMessage h [CONTROL_CHANGE, ALL_NOTES_OFF, 0]) t1;
                   t3 = emit (SendMessage h [CONTROL_CHANGE, RESET_ALL_CONTROLLERS, 0]) t2;
                   t4 = emit (CloseOut h) t3
               in t4\<lparr>devices := (devices t4)(a := (devices t4 a)\<lparr>output_h := None\<rparr>)\<rparr>)))"

section \<open>Station\<close>

text \<open>\<open>Station()\<close> in a world whose driver reports the given ports.\<close>

definition Station :: "string list \<Rightarrow> string list \<Rightarrow> world" where
  "Station ins outs =
     \<lparr>input_devices = [], output_devices = [], last_wiring = None,
      devices = (\<lambda>a. MidiDevice_init [] 0),
      next_dev = 0, in_ports = ins, out_ports = outs, next_handle = 0, trace = []\<rparr>"

text \<open>\<open>Station.reset\<close>: the two loops, each followed by the assignment of \<open>[]\<close>.\<close>

fun close_all :: "addr list \<Rightarrow> world \<Rightarrow> world" where
  "close_all [] s = s"
| "close_all (d # ds) s = close_all ds (close d s)"

definition reset :: "world \<Rightarrow> world" where
  "reset s =
     (let s1 = close_all (input_devices s) s;
          s2 = s1\<lparr>input_devices := []\<rparr>;
          s3 = close_all (output_devices s2) s2
      in s3\<lparr>output_devices := []\<rparr>)"

text \<open>\<open>Station.panic\<close>: one \<open>MidiOut\<close> object, opened on each port in turn.\<close>

fun panic_loop :: "handle \<Rightarrow> (nat \<times> string) list \<Rightarrow> world \<Rightarrow> world" where
  "panic_loop midi_out [] s = s"
| "panic_loop midi_out ((portnum, portname) # rest) s =
     (let s1 = emit (OpenOut midi_out portnum) s;
          s2 = emit (SendMessage midi_out [CONTROL_CHANGE, ALL_SOUND_OFF, 0]) s1;
          s3 = emit (SendMessage midi_out [CONTROL_CHANGE, ALL_NOTES_OFF, 0]) s2;
          s4 = emit (SendMessage midi_out [CONTROL_CHANGE, RESET_ALL_CONTROLLERS, 0]) s3;
          s5 = emit (CloseOut midi_out) s4
      in panic_loop midi_out rest s5)"

definition panic :: "world \<Rightarrow> world" where
  "panic s =
     (let (midi_out, s1) = new_midi s
      in panic_loop midi_out (enumerate 0 (out_ports s1)) s1)"

text \<open>
  \<open>Station.__discover_devices\<close>: one new device per port reported by the driver, in the
  driver's order; the two callers pass a new \<open>MidiIn()\<close> or \<open>MidiOut()\<close>.
\<close>

fun discover_devices :: "(nat \<times> string) list \<Rightarrow> world \<Rightarrow> addr list \<times> world" where
  "discover_devices [] s = ([], s)"
| "discover_devices ((p, name) # rest) s =
     (let (a, s1) = new_device name p s;
          (as, s2) = discover_devices rest s1
      in (a # as, s2))"

definition discover_input_devices :: "world \<Rightarrow> addr list \<times> world" where
  "discover_input_devices s =
     (let (midi, s1) = new_midi s in discover_devices (enumerate 0 (in_ports s1)) s1)"

definition discover_output_devices :: "world \<Rightarrow> addr list \<times> world" where
  "discover_output_devices s =
     (let (midi, s1) = new_midi s in discover_devices (enumerate 0 (out_ports s1)) s1)"

text \<open>\<open>Station.__find_matching_device\<close>: the loop, with the variable \<open>device\<close>.\<close>

fun find_loop :: "user_spec \<Rightarrow> addr list \<Rightarrow> addr option \<Rightarrow> world \<Rightarrow> error + addr option" where
  "find_loop spec [] device s = Inr device"
| "find_loop spec (potential_device # rest) device s =
     (if matches (devices s potential_device) spec then
        (if device = None then find_loop spec rest (Some potential_device) s
         else Inl (MoreThanOneMatch spec))
      else find_loop spec rest device s)"

definition find_matching_device :: "user_spec \<Rightarrow> addr list \<Rightarrow> world \<Rightarrow> error + addr option" where
  "find_matching_device spec device_list s = find_loop spec device_list None s"

text \<open>
  \<open>Station.wire\<close>: the first loop resolves every rule and collects \<open>wire_list\<close>; the second
  registers the collected routes.
\<close>

fun resolve_loop ::
  "wiring \<Rightarrow> addr list \<Rightarrow> addr list \<Rightarrow> (addr \<times> addr \<times> channel) list \<Rightarrow> world
     \<Rightarrow> (error + (addr \<times> addr \<times> channel) list) \<times> world" where
  "resolve_loop [] input_device_list output_device_list wire_list s = (Inr wire_list, s)"
| "resolve_loop ((input_spec, ch, output_spec) # rest) input_device_list output_device_list
       wire_list s =
     (case find_matching_device input_spec input_device_list s of
        Inl e \<Rightarrow> (Inl e, s)
      | Inr input_device \<Rightarrow>
     (case find_matching_device output_spec output_device_list s of
        Inl e \<Rightarrow> (Inl e, s)
      | Inr output_device \<Rightarrow>
          (let s1 = (if input_device = None
                     then emit (Stderr (CantFindInput input_spec)) s else s);
               s2 = (if output_device = None
                     then emit (Stderr (CantFindOutput output_spec)) s1 else s1)
           in (case (input_device, output_device) of
                 (Some in_d, Some out_d) \<Rightarrow>
                   resolve_loop rest input_device_list output_device_list
                     (wire_list @ [(in_d, out_d, ch)]) s2
               | _ \<Rightarrow>
                   resolve_loop rest input_device_list output_device_list wire_list
                     (emit (Stderr Skipping) s2)))))"

fun register_loop :: "(addr \<times> addr \<times> channel) list \<Rightarrow> world \<Rightarrow> world" where
  "register_loop [] s = s"
| "register_loop ((in_d, out_d, chan) # rest) s =
     (let s1 = s\<lparr>input_devices := input_devices s @ [in_d]\<rparr>;
          s2 = s1\<lparr>output_devices := output_devices s1 @ [out_d]\<rparr>
      in register_loop rest (forward_messages in_d out_d chan s2))"

definition wire :: "wiring \<Rightarrow> world \<Rightarrow> (error + unit) \<times> world" where
  "wire w s =
     (let s0 = s\<lparr>last_wiring := Some w\<rparr>;
          (input_device_list, s1) = discover_input_devices s0;
          (output_device_list, s2) = discover_output_devices s1
      in (case resolve_loop w input_device_list output_device_list [] s2 of
            (Inl e, s3) \<Rightarrow> (Inl e, s3)
          | (Inr wire_list, s3) \<Rightarrow> (Inr (), register_loop wire_list s3)))"

text \<open>\<open>Station.rewire\<close>: the parameter is never read.\<close>

definition rewire :: "'a \<Rightarrow> world \<Rightarrow> (error + unit) \<times> world" where
  "rewire wiring_arg s =
     (case last_wiring s of
        None \<Rightarrow> (Inl NoWiringSet, s)
      | Some w \<Rightarrow> wire w (reset s))"

section \<open>Notions used in the statements\<close>

text \<open>
  ASCII text, and Python's \<open>string.ascii_uppercase\<close> and \<open>string.ascii_lowercase\<close>.
\<close>

definition ascii :: "string \<Rightarrow> bool" where
  "ascii xs = list_all (\<lambda>c. (of_char c :: nat) < 128) xs"

definition ascii_uppercase :: string where
  "ascii_uppercase = ''ABCDEFGHIJKLMNOPQRSTUVWXYZ''"

definition ascii_lowercase :: string where
  "ascii_lowercase = ''abcdefghijklmnopqrstuvwxyz''"

text \<open>The store after discovery: one new device per reported port, from \<open>base\<close> on.\<close>

definition discovered ::
  "addr \<Rightarrow> nat \<Rightarrow> string list \<Rightarrow> (addr \<Rightarrow> MidiDevice) \<Rightarrow> addr \<Rightarrow> MidiDevice" where
  "discovered base k names devs =
     (\<lambda>a. if base \<le> a \<and> a < base + length names
          then MidiDevice_init (names ! (a - base)) (k + (a - base)) else devs a)"

text \<open>The candidates of a list that a spec matches, in the order of the list.\<close>

definition hits :: "user_spec \<Rightarrow> addr list \<Rightarrow> world \<Rightarrow> addr list" where
  "hits spec ds s = filter (\<lambda>d. matches (devices s d) spec) ds"

text \<open>
  The same by port: the indices of the reported ports whose device, as discovery creates
  it, the spec matches.
\<close>

definition port_hits :: "user_spec \<Rightarrow> string list \<Rightarrow> nat list" where
  "port_hits spec names =
     filter (\<lambda>k. matches (MidiDevice_init (names ! k) k) spec) [0..<length names]"

text \<open>What one rule prints when a side is not found.\<close>

definition rule_diags :: "user_spec \<Rightarrow> user_spec \<Rightarrow> bool \<Rightarrow> bool \<Rightarrow> event list" where
  "rule_diags input_spec output_spec no_in no_out =
     (if no_in then [Stderr (CantFindInput input_spec)] else []) @
     (if no_out then [Stderr (CantFindOutput output_spec)] else []) @
     (if no_in \<or> no_out then [Stderr Skipping] else [])"

text \<open>
  The routes and the diagnostics of a wiring, given the candidates that each input spec and
  each output spec matches: a rule yields a route for every pair of matching candidates
  (one route when both sides match exactly once, none when a side matches nothing).
\<close>

definition routes_by ::
  "(user_spec \<Rightarrow> addr list) \<Rightarrow> (user_spec \<Rightarrow> addr list) \<Rightarrow> wiring
     \<Rightarrow> (addr \<times> addr \<times> channel) list" where
  "routes_by hin hout w =
     concat (map (\<lambda>(input_spec, ch, output_spec).
       concat (map (\<lambda>i. map (\<lambda>out. (i, out, ch)) (hout output_spec)) (hin input_spec))) w)"

definition diags_by ::
  "(user_spec \<Rightarrow> addr list) \<Rightarrow> (user_spec \<Rightarrow> addr list) \<Rightarrow> wiring \<Rightarrow> event list" where
  "diags_by hin hout w =
     concat (map (\<lambda>(input_spec, ch, output_spec).
       rule_diags input_spec output_spec (hin input_spec = []) (hout output_spec = [])) w)"

definition unambiguous_by ::
  "(user_spec \<Rightarrow> addr list) \<Rightarrow> (user_spec \<Rightarrow> addr list) \<Rightarrow> wiring \<Rightarrow> bool" where
  "unambiguous_by hin hout w =
     list_all (\<lambda>(input_spec, ch, output_spec).
       length (hin input_spec) \<le> 1 \<and> length (hout output_spec) \<le> 1) w"

text \<open>
  The devices that \<open>wire\<close>, started in \<open>s\<close>, discovers, the state after its two
  discovery calls, and the discovered devices that a spec matches.
\<close>

definition input_device_list :: "world \<Rightarrow> addr list" where
  "input_device_list s = [next_dev s ..< next_dev s + length (in_ports s)]"

definition output_device_list :: "world \<Rightarrow> addr list" where
  "output_device_list s =
     [next_dev s + length (in_ports s) ..<
      next_dev s + length (in_ports s) + length (out_ports s)]"

definition after_discovery :: "wiring \<Rightarrow> world \<Rightarrow> world" where
  "after_discovery w s =
     s\<lparr>last_wiring := Some w,
       next_handle := Suc (Suc (next_handle s)),
       devices := discovered (next_dev s + length (in_ports s)) 0 (out_ports s)
                    (discovered (next_dev s) 0 (in_ports s) (devices s)),
       next_dev := next_dev s + length (in_ports s) + length (out_ports s)\<rparr>"

definition in_hits :: "world \<Rightarrow> user_spec \<Rightarrow> addr list" where
  "in_hits s spec = map (\<lambda>k. next_dev s + k) (port_hits spec (in_ports s))"

definition out_hits :: "world \<Rightarrow> user_spec \<Rightarrow> addr list" where
  "out_hits s spec =
     map (\<lambda>k. next_dev s + length (in_ports s) + k) (port_hits spec (out_ports s))"

text \<open>Events on an output handle; lines on stderr.\<close>

fun on_output :: "handle \<Rightarrow> event \<Rightarrow> bool" where
  "on_output c (OpenOut h p) = (h = c)"
| "on_output c (SendMessage h m) = (h = c)"
| "on_output c (CloseOut h) = (h = c)"
| "on_output c e = False"

fun is_Stderr :: "event \<Rightarrow> bool" where
  "is_Stderr (Stderr d) = True"
| "is_Stderr e = False"

text \<open>The silence sequence that \<open>close\<close> and \<open>panic\<close> send on a handle.\<close>

definition silence :: "handle \<Rightarrow> event list" where
  "silence h =
     [SendMessage h [CONTROL_CHANGE, ALL_SOUND_OFF, 0],
      SendMessage h [CONTROL_CHANGE, ALL_NOTES_OFF, 0],
      SendMessage h [CONTROL_CHANGE, RESET_ALL_CONTROLLERS, 0]]"

text \<open>The events of one \<open>close\<close>, and of closing a list of devices one after the other.\<close>

definition close_events :: "MidiDevice \<Rightarrow> event list" where
  "close_events dev =
     (case input_h dev of None \<Rightarrow> [] | Some h \<Rightarrow> [CloseIn h]) @
     (case output_h dev of None \<Rightarrow> [] | Some h \<Rightarrow> silence h @ [CloseOut h])"

fun close_all_events :: "addr list \<Rightarrow> world \<Rightarrow> event list" where
  "close_all_events [] s = []"
| "close_all_events (d # ds) s = close_events (devices s d) @ close_all_events ds (close d s)"

text \<open>
  What holds of every state that the Station's operations produce: two devices never
  share an output handle, handles are older than the counter, every active output
  device has its output open, nothing beyond the allocated devices holds a connection,
  and a device whose input is open is active and all its routes lead to open outputs.
\<close>

definition station_inv :: "world \<Rightarrow> bool" where
  "station_inv s \<longleftrightarrow>
     (\<forall>a b c. output_h (devices s a) = Some c \<and> output_h (devices s b) = Some c \<longrightarrow> a = b)
     \<and> (\<forall>a c. output_h (devices s a) = Some c \<longrightarrow> c < next_handle s)
     \<and> (\<forall>d \<in> set (output_devices s). output_h (devices s d) \<noteq> None)
     \<and> (\<forall>a. next_dev s \<le> a \<longrightarrow>
           input_h (devices s a) = None \<and> output_h (devices s a) = None)
     \<and> (\<forall>a. input_h (devices s a) \<noteq> None \<longrightarrow>
           a \<in> set (input_devices s)
           \<and> (\<forall>(out, ch) \<in> set (forwards (devices s a)). output_h (devices s out) \<noteq> None))"

text \<open>
  The states the program can be in: a new Station, and from there any sequence of the
  four operations, of callbacks from the driver, and of changes of the ports that the
  driver reports.
\<close>

inductive reachable :: "world \<Rightarrow> bool" where
  init: "reachable (Station ins outs)"
| wire: "reachable s \<Longrightarrow> reachable (snd (wire w s))"
| reset: "reachable s \<Longrightarrow> reachable (reset s)"
| panic: "reachable s \<Longrightarrow> reachable (panic s)"
| rewire: "reachable s \<Longrightarrow> reachable (snd (rewire () s))"
| callback: "reachable s \<Longrightarrow> reachable (snd (callback a (m, ()) () s))"
| replug: "reachable s \<Longrightarrow> reachable (s\<lparr>in_ports := ins, out_ports := outs\<rparr>)"

text \<open>
  The states in which \<open>wire\<close> has never been called: a new Station, and from there
  anything but \<open>wire\<close>.
\<close>

inductive never_wired :: "world \<Rightarrow> bool" where
  init: "never_wired (Station ins outs)"
| reset: "never_wired s \<Longrightarrow> never_wired (reset s)"
| panic: "never_wired s \<Longrightarrow> never_wired (panic s)"
| rewire: "never_wired s \<Longrightarrow> never_wired (snd (rewire () s))"
| callback: "never_wired s \<Longrightarrow> never_wired (snd (callback a (m, ()) () s))"
| replug: "never_wired s \<Longrightarrow> never_wired (s\<lparr>in_ports := ins, out_ports := outs\<rparr>)"

section \<open>Example rigs and wirings\<close>

definition rig_kbd :: world where
  "rig_kbd = Station [''kbd''] [''out1'']"

definition rig_two_pads :: world where
  "rig_two_pads = Station [''padA'', ''padB''] [''out1'']"

definition rig_pads :: world where
  "rig_pads = Station [''kbd'', ''padA'', ''padB''] [''out1'']"

definition wiring_ghost_kbd :: wiring where
  "wiring_ghost_kbd =
     [(Str ''ghost'', AllChannels, Str ''out1''), (Str ''kbd'', AllChannels, Str ''out1'')]"

definition wiring_pad :: wiring where
  "wiring_pad = [(Str ''pad'', AllChannels, Str ''out1'')]"

definition wiring_padA :: wiring where
  "wiring_padA = [(Str ''padA'', AllChannels, Str ''out1'')]"

definition wiring_kbd_then_pad :: wiring where
  "wiring_kbd_then_pad =
     [(Str ''kbd'', AllChannels, Str ''out1''), (Str ''pad'', AllChannels, Str ''out1'')]"

definition wiring_ghost_kbd_pad :: wiring where
  "wiring_ghost_kbd_pad =
     [(Str ''ghost'', AllChannels, Str ''out1''), (Str ''kbd'', AllChannels, Str ''out1''),
      (Str ''pad'', AllChannels, Str ''out1'')]"

definition rig_kbd_two_outs :: world where
  "rig_kbd_two_outs = Station [''kbd''] [''out1'', ''out2'']"

definition wiring_two_routes :: wiring where
  "wiring_two_routes =
     [(Str ''kbd'', AllChannels, Str ''out1''), (Str ''kbd'', Chan 1, Str ''out2'')]"

definition wired_two_routes :: world where
  "wired_two_routes = snd (wire wiring_two_routes rig_kbd_two_outs)"

definition rig_shared_out :: world where
  "rig_shared_out = Station [''kbd'', ''pad''] [''out1'']"

definition wiring_shared_out :: wiring where
  "wiring_shared_out =
     [(Str ''kbd'', AllChannels, Str ''out1''), (Str ''pad'', AllChannels, Str ''out1'')]"

definition wired_shared_out :: world where
  "wired_shared_out = snd (wire wiring_shared_out rig_shared_out)"

definition failed_first_wire :: world where
  "failed_first_wire = snd (wire wiring_pad rig_two_pads)"

definition failed_first_wire_replugged :: world where
  "failed_first_wire_replugged = failed_first_wire\<lparr>in_ports := [''padA''], out_ports := [''out1'']\<rparr>"

section \<open>Name matching\<close>

lemma matches_simps [simp]:
  "matches dev (Str u) = str_in (lower u) (lower (full_name dev))"
  "matches dev (ExactMatch n) = (n = full_name dev)"
  by (simp_all add: matches_def)

lemma startswith_iff: "startswith a b \<longleftrightarrow> (\<exists>ss. b = a @ ss)"
  by (induction a b rule: startswith.induct) auto

lemma str_in_iff: "str_in a b \<longleftrightarrow> (\<exists>ps ss. b = ps @ a @ ss)"
proof (induction b)
  case Nil
  then show ?case by auto
next
  case (Cons c cs)
  show ?case
  proof
    assume "str_in a (c # cs)"
    then consider "startswith a (c # cs)" | "str_in a cs" by auto
    then show "\<exists>ps ss. c # cs = ps @ a @ ss"
    proof cases
      case 1
      then obtain ss where "c # cs = a @ ss" by (auto simp: startswith_iff)
      then have "c # cs = [] @ a @ ss" by simp
      then show ?thesis by blast
    next
      case 2
      with Cons obtain ps ss where "cs = ps @ a @ ss" by auto
      then have "c # cs = (c # ps) @ a @ ss" by simp
      then show ?thesis by blast
    qed
  next
    assume "\<exists>ps ss. c # cs = ps @ a @ ss"
    then obtain ps ss where eq: "c # cs = ps @ a @ ss" by blast
    show "str_in a (c # cs)"
    proof (cases ps)
      case Nil
      with eq have "startswith a (c # cs)" by (auto simp: startswith_iff)
      then show ?thesis by simp
    next
      case (Cons p ps')
      with eq have "cs = ps' @ a @ ss" by simp
      with Cons.IH have "str_in a cs" by blast
      then show ?thesis by simp
    qed
  qed
qed

lemma upper_codes: "map char_of [65 ..< 91 :: nat] = ascii_uppercase"
  by code_simp

lemma lower_char_upper:
  "\<forall>c \<in> set ascii_uppercase.
     lower_char c = (case map_of (zip ascii_uppercase ascii_lowercase) c of None \<Rightarrow> c | Some l \<Rightarrow> l)"
  by code_simp

lemma upper_range:
  assumes "65 \<le> (of_char c :: nat)" and "(of_char c :: nat) \<le> 90"
  shows "c \<in> set ascii_uppercase"
proof -
  have "(of_char c :: nat) \<in> {65 ..< 91}" using assms by simp
  then have "(of_char c :: nat) \<in> set [65 ..< 91]" by (simp only: set_upt)
  then have "char_of (of_char c :: nat) \<in> set (map char_of [65 ..< 91 :: nat])"
    unfolding set_map by (rule imageI)
  then show ?thesis unfolding upper_codes by simp
qed

lemma lower_char_table:
  "lower_char c = (case map_of (zip ascii_uppercase ascii_lowercase) c of None \<Rightarrow> c | Some l \<Rightarrow> l)"
proof (cases "c \<in> set ascii_uppercase")
  case True
  with lower_char_upper show ?thesis by blast
next
  case False
  have "length ascii_uppercase = length ascii_lowercase"
    by (simp add: ascii_uppercase_def ascii_lowercase_def)
  then have "map_of (zip ascii_uppercase ascii_lowercase) c = None"
    using False by simp
  moreover have "lower_char c = c"
    using False upper_range [of c] by (auto simp: lower_char_def Let_def)
  ultimately show ?thesis by simp
qed

lemma lower_table:
  "lower xs =
     map (\<lambda>c. case map_of (zip ascii_uppercase ascii_lowercase) c of None \<Rightarrow> c | Some l \<Rightarrow> l) xs"
  unfolding lower_def by (rule map_cong [OF refl]) (rule lower_char_table)

lemma lower_uppercase: "lower ascii_uppercase = ascii_lowercase"
  by code_simp

text \<open>
  C10. Whatever \<open>str.lower\<close> does (\<open>lw\<close>), a \<open>str\<close> spec matches a device exactly when the
  lower-cased device name contains the lower-cased spec, and an \<open>ExactMatch\<close> spec
  matches exactly when its name equals the device name, character for character, with
  no case folding. On ASCII names and specs, where \<open>str.lower\<close> is \<open>lower\<close>, this is
  \<open>matches\<close>; and \<open>lower\<close> sends each of A to Z to its small letter and leaves every
  other character as it is.
\<close>

theorem matches_spec:
  "(matches_by lw dev (Str u) \<longleftrightarrow> (\<exists>ps ss. lw (full_name dev) = ps @ lw u @ ss))
   \<and> (matches_by lw dev (ExactMatch n) \<longleftrightarrow> n = full_name dev)
   \<and> (ascii (full_name dev) \<and> ascii u \<longrightarrow>
        (matches dev (Str u) \<longleftrightarrow> (\<exists>ps ss. lower (full_name dev) = ps @ lower u @ ss)))
   \<and> (matches dev (ExactMatch n) \<longleftrightarrow> n = full_name dev)
   \<and> lower xs =
        map (\<lambda>c. case map_of (zip ascii_uppercase ascii_lowercase) c of
                    None \<Rightarrow> c | Some l \<Rightarrow> l) xs
   \<and> lower ascii_uppercase = ascii_lowercase"
proof -
  have "lower xs =
        map (\<lambda>c. case map_of (zip ascii_uppercase ascii_lowercase) c of
                    None \<Rightarrow> c | Some l \<Rightarrow> l) xs"
    by (rule lower_table)
  then show ?thesis
    by (simp add: str_in_iff lower_uppercase)
qed

theorem matches_spec_witness:
  "ascii ''Akai LPK25 MIDI 1'' \<and> ascii ''lpk''
   \<and> lower ''Akai LPK25 MIDI 1'' = ''akai lpk25 midi 1''
   \<and> matches (MidiDevice_init ''Akai LPK25 MIDI 1'' 0) (Str ''lpk'')
   \<and> matches (MidiDevice_init ''Akai LPK25 MIDI 1'' 0) (ExactMatch ''Akai LPK25 MIDI 1'')
   \<and> \<not> matches (MidiDevice_init ''Akai LPK25 MIDI 1'' 0) (ExactMatch ''akai lpk25 midi 1'')
   \<and> \<not> matches (MidiDevice_init ''Akai LPK25 MIDI 1'' 0) (ExactMatch ''LPK25'')
   \<and> \<not> matches (MidiDevice_init ''Akai LPK25 MIDI 1'' 0) (Str ''lpk26'')"
proof -
  have a: "ascii ''Akai LPK25 MIDI 1''" "ascii ''lpk''"
    by code_simp+
  have l: "lower ''Akai LPK25 MIDI 1'' = ''akai lpk25 midi 1''" "lower ''lpk'' = ''lpk''"
    by code_simp+
  have "lower ''Akai LPK25 MIDI 1'' = ''akai '' @ lower ''lpk'' @ ''25 midi 1''"
    by (simp add: l)
  then have e: "\<exists>ps ss. lower ''Akai LPK25 MIDI 1'' = ps @ lower ''lpk'' @ ss"
    by blast
  have n: "\<not> matches (MidiDevice_init ''Akai LPK25 MIDI 1'' 0) (Str ''lpk26'')"
    by code_simp
  from a l e n
    matches_spec [where lw = lower and dev = "MidiDevice_init ''Akai LPK25 MIDI 1'' 0"
      and u = "''lpk''" and n = "''Akai LPK25 MIDI 1''" and xs = "[]"]
    matches_spec [where lw = lower and dev = "MidiDevice_init ''Akai LPK25 MIDI 1'' 0"
      and u = "''lpk''" and n = "''akai lpk25 midi 1''" and xs = "[]"]
    matches_spec [where lw = lower and dev = "MidiDevice_init ''Akai LPK25 MIDI 1'' 0"
      and u = "''lpk''" and n = "''LPK25''" and xs = "[]"]
  show ?thesis
    by (simp add: MidiDevice_init_def)
qed

section \<open>Basic facts about the state\<close>

lemma emit_simps [simp]:
  "devices (emit e s) = devices s"
  "trace (emit e s) = trace s @ [e]"
  "input_devices (emit e s) = input_devices s"
  "output_devices (emit e s) = output_devices s"
  "last_wiring (emit e s) = last_wiring s"
  "next_dev (emit e s) = next_dev s"
  "next_handle (emit e s) = next_handle s"
  "in_ports (emit e s) = in_ports s"
  "out_ports (emit e s) = out_ports s"
  by (simp_all add: emit_def)


section \<open>Discovery\<close>

lemma discovered_Nil: "discovered base k [] devs = devs"
  by (auto simp: discovered_def fun_eq_iff)

lemma discovered_Cons:
  "discovered (Suc base) (Suc k) names (devs(base := MidiDevice_init n k)) = discovered base k (n # names) devs"
proof (rule ext)
  fix a
  consider "a < base" | "a = base" | "base < a"  by linarith
  then show "discovered (Suc base) (Suc k) names (devs(base := MidiDevice_init n k)) a = discovered base k (n # names) devs a"
  proof cases
    case 1
    then show ?thesis by (simp add: discovered_def)
  next
    case 2
    then show ?thesis by (simp add: discovered_def)
  next
    case 3
    then obtain j where "a = Suc (base + j)" using less_iff_Suc_add by auto
    then show ?thesis by (simp add: discovered_def)
  qed
qed

lemma discover_devices_eq:
  "discover_devices (enumerate k names) s =
     ([next_dev s ..< next_dev s + length names],
      s\<lparr>devices := discovered (next_dev s) k names (devices s),
        next_dev := next_dev s + length names\<rparr>)"
proof (induction names arbitrary: k s)
  case Nil
  then show ?case by (simp add: discovered_Nil)
next
  case (Cons n names)
  have "[next_dev s..<Suc (next_dev s + length names)] =
        next_dev s # [Suc (next_dev s)..<Suc (next_dev s + length names)]"
    by (rule upt_conv_Cons) simp
  then show ?case
    by (simp add: Cons.IH new_device_def
        discovered_Cons del: upt_Suc)
qed

section \<open>Resolving a spec\<close>

lemma hits_trace [simp]: "hits spec ds (s\<lparr>trace := t\<rparr>) = hits spec ds s"
  by (simp add: hits_def)

lemma hits_emit [simp]: "hits spec ds (emit e s) = hits spec ds s"
  by (simp add: hits_def)

lemma find_loop_trace [simp]: "find_loop spec ds dev (s\<lparr>trace := t\<rparr>) = find_loop spec ds dev s"
  by (induction ds arbitrary: dev) simp_all

lemma find_loop_Some:
  "find_loop spec ds (Some d) s =
     (if hits spec ds s = [] then Inr (Some d) else Inl (MoreThanOneMatch spec))"
  by (induction ds) (simp_all add: hits_def)

lemma find_loop_None:
  "find_loop spec ds None s =
     (case hits spec ds s of
        [] \<Rightarrow> Inr None
      | [x] \<Rightarrow> Inr (Some x)
      | x # y # zs \<Rightarrow> Inl (MoreThanOneMatch spec))"
proof (induction ds)
  case Nil
  then show ?case by (simp add: hits_def)
next
  case (Cons p ds)
  show ?case
  proof (cases "matches (devices s p) spec")
    case True
    then have "hits spec (p # ds) s = p # hits spec ds s" by (simp add: hits_def)
    with True show ?thesis
      by (simp add: find_loop_Some split: list.splits)
  next
    case False
    then have "hits spec (p # ds) s = hits spec ds s" by (simp add: hits_def)
    with False Cons show ?thesis by simp
  qed
qed

lemma find_matching_device_eq:
  "find_matching_device spec ds s =
     (case hits spec ds s of
        [] \<Rightarrow> Inr None
      | [x] \<Rightarrow> Inr (Some x)
      | x # y # zs \<Rightarrow> Inl (MoreThanOneMatch spec))"
  by (simp add: find_matching_device_def find_loop_None)

lemma find_matching_device_ambiguous:
  "1 < length (hits spec ds s) \<Longrightarrow> find_matching_device spec ds s = Inl (MoreThanOneMatch spec)"
  by (cases "hits spec ds s" rule: remdups_adj.cases) (simp_all add: find_matching_device_eq)

lemma find_matching_device_unique:
  "length (hits spec ds s) \<le> 1 \<Longrightarrow>
   find_matching_device spec ds s = Inr (case hits spec ds s of [] \<Rightarrow> None | x # xs \<Rightarrow> Some x)"
  by (cases "hits spec ds s" rule: remdups_adj.cases) (simp_all add: find_matching_device_eq)

lemma resolve_step:
  assumes "length (hits isp ins s) \<le> 1" and "length (hits osp outs s) \<le> 1"
  shows "resolve_loop ((isp, ch, osp) # rest) ins outs acc s =
         resolve_loop rest ins outs
           (acc @ concat (map (\<lambda>i. map (\<lambda>out. (i, out, ch)) (hits osp outs s)) (hits isp ins s)))
           (s\<lparr>trace := trace s @
                rule_diags isp osp (hits isp ins s = []) (hits osp outs s = [])\<rparr>)"
proof -
  consider (nn) "hits isp ins s = []" "hits osp outs s = []"
    | (ns) b where "hits isp ins s = []" "hits osp outs s = [b]"
    | (sn) i where "hits isp ins s = [i]" "hits osp outs s = []"
    | (ss) i b where "hits isp ins s = [i]" "hits osp outs s = [b]"
    using assms
    by (cases "hits isp ins s" rule: remdups_adj.cases; cases "hits osp outs s" rule: remdups_adj.cases) auto
  then show ?thesis
  proof cases
    case nn
    then show ?thesis by (simp add: find_matching_device_eq rule_diags_def emit_def)
  next
    case ns
    then show ?thesis by (simp add: find_matching_device_eq rule_diags_def emit_def)
  next
    case sn
    then show ?thesis by (simp add: find_matching_device_eq rule_diags_def emit_def)
  next
    case ss
    then show ?thesis by (simp add: find_matching_device_eq rule_diags_def emit_def)
  qed
qed

lemma resolve_ambiguous_in:
  "1 < length (hits isp ins s) \<Longrightarrow>
   resolve_loop ((isp, ch, osp) # rest) ins outs acc s = (Inl (MoreThanOneMatch isp), s)"
  by (simp add: find_matching_device_ambiguous)

lemma resolve_ambiguous_out:
  "length (hits isp ins s) \<le> 1 \<Longrightarrow> 1 < length (hits osp outs s) \<Longrightarrow>
   resolve_loop ((isp, ch, osp) # rest) ins outs acc s = (Inl (MoreThanOneMatch osp), s)"
  by (simp add: find_matching_device_ambiguous find_matching_device_unique)

declare resolve_loop.simps(2) [simp del]

lemma unambiguous_by_Cons:
  "unambiguous_by hin hout ((isp, ch, osp) # w) \<longleftrightarrow>
     length (hin isp) \<le> 1 \<and> length (hout osp) \<le> 1 \<and> unambiguous_by hin hout w"
  by (simp add: unambiguous_by_def)

lemma resolve_prefix:
  "unambiguous_by (\<lambda>sp. hits sp ins s) (\<lambda>sp. hits sp outs s) pre \<Longrightarrow>
   resolve_loop (pre @ rest) ins outs acc s =
   resolve_loop rest ins outs
     (acc @ routes_by (\<lambda>sp. hits sp ins s) (\<lambda>sp. hits sp outs s) pre)
     (s\<lparr>trace := trace s @ diags_by (\<lambda>sp. hits sp ins s) (\<lambda>sp. hits sp outs s) pre\<rparr>)"
proof (induction pre arbitrary: acc s)
  case Nil
  then show ?case by (simp add: routes_by_def diags_by_def)
next
  case (Cons r pre)
  obtain isp ch osp where r: "r = (isp, ch, osp)" by (cases r)
  let ?s' = "s\<lparr>trace := trace s @ rule_diags isp osp (hits isp ins s = []) (hits osp outs s = [])\<rparr>"
  let ?acc' = "acc @ concat (map (\<lambda>i. map (\<lambda>out. (i, out, ch)) (hits osp outs s)) (hits isp ins s))"
  have u: "length (hits isp ins s) \<le> 1" "length (hits osp outs s) \<le> 1"
    and up: "unambiguous_by (\<lambda>sp. hits sp ins s) (\<lambda>sp. hits sp outs s) pre"
    using Cons.prems by (simp_all add: r unambiguous_by_Cons)
  have up': "unambiguous_by (\<lambda>sp. hits sp ins ?s') (\<lambda>sp. hits sp outs ?s') pre"
    using up by simp
  show ?case
    using Cons.IH [OF up', of ?acc']
    by (simp add: r resolve_step [OF u] routes_by_def diags_by_def)
qed

lemma resolve_unambiguous:
  "unambiguous_by (\<lambda>sp. hits sp ins s) (\<lambda>sp. hits sp outs s) w \<Longrightarrow>
   resolve_loop w ins outs acc s =
     (Inr (acc @ routes_by (\<lambda>sp. hits sp ins s) (\<lambda>sp. hits sp outs s) w),
      s\<lparr>trace := trace s @ diags_by (\<lambda>sp. hits sp ins s) (\<lambda>sp. hits sp outs s) w\<rparr>)"
  using resolve_prefix [of ins s outs w "[]" acc] by simp

lemma rule_diags_Stderr: "e \<in> set (rule_diags isp osp a b) \<Longrightarrow> is_Stderr e"
  by (auto simp: rule_diags_def split: if_splits)

lemma resolve_frame:
  "\<exists>ds. snd (resolve_loop w ins outs acc s) = s\<lparr>trace := trace s @ ds\<rparr> \<and> (\<forall>e\<in>set ds. is_Stderr e)"
proof (induction w arbitrary: acc s)
  case Nil
  have "s = s\<lparr>trace := trace s @ []\<rparr>" by simp
  then show ?case by (metis resolve_loop.simps(1) snd_conv empty_iff list.set(1))
next
  case (Cons r w)
  obtain isp ch osp where r: "r = (isp, ch, osp)" by (cases r)
  consider (ai) "1 < length (hits isp ins s)"
    | (ao) "length (hits isp ins s) \<le> 1" "1 < length (hits osp outs s)"
    | (u) "length (hits isp ins s) \<le> 1" "length (hits osp outs s) \<le> 1"
    by linarith
  then show ?case
  proof cases
    case ai
    have "s = s\<lparr>trace := trace s @ []\<rparr>" by simp
    then show ?thesis unfolding r resolve_ambiguous_in [OF ai]
      by (metis snd_conv empty_iff list.set(1))
  next
    case ao
    have "s = s\<lparr>trace := trace s @ []\<rparr>" by simp
    then show ?thesis unfolding r resolve_ambiguous_out [OF ao]
      by (metis snd_conv empty_iff list.set(1))
  next
    case u
    let ?d = "rule_diags isp osp (hits isp ins s = []) (hits osp outs s = [])"
    let ?s' = "s\<lparr>trace := trace s @ ?d\<rparr>"
    let ?acc' = "acc @ concat (map (\<lambda>i. map (\<lambda>out. (i, out, ch)) (hits osp outs s)) (hits isp ins s))"
    from Cons.IH [of ?acc' ?s'] obtain ds where
      ds: "snd (resolve_loop w ins outs ?acc' ?s') = ?s'\<lparr>trace := trace ?s' @ ds\<rparr>"
        "\<forall>e\<in>set ds. is_Stderr e" by blast
    have "snd (resolve_loop (r # w) ins outs acc s) = s\<lparr>trace := trace s @ (?d @ ds)\<rparr>"
      using ds(1) by (simp add: r resolve_step [OF u])
    moreover have "\<forall>e\<in>set (?d @ ds). is_Stderr e"
      using ds(2) by (auto dest: rule_diags_Stderr)
    ultimately show ?thesis by blast
  qed
qed

lemma resolve_error:
  "fst (resolve_loop w ins outs acc s) = Inl e \<Longrightarrow> \<exists>spec. e = MoreThanOneMatch spec"
proof (induction w arbitrary: acc s)
  case Nil
  then show ?case by simp
next
  case (Cons r w)
  obtain isp ch osp where r: "r = (isp, ch, osp)" by (cases r)
  consider (ai) "1 < length (hits isp ins s)"
    | (ao) "length (hits isp ins s) \<le> 1" "1 < length (hits osp outs s)"
    | (u) "length (hits isp ins s) \<le> 1" "length (hits osp outs s) \<le> 1"
    by linarith
  then show ?case
  proof cases
    case ai
    then show ?thesis using Cons.prems by (auto simp: r resolve_ambiguous_in [OF ai])
  next
    case ao
    then show ?thesis using Cons.prems by (auto simp: r resolve_ambiguous_out [OF ao])
  next
    case u
    then show ?thesis using Cons.prems Cons.IH by (simp add: r resolve_step [OF u])
  qed
qed

section \<open>Registering routes\<close>

lemma prepare_for_output_frame [simp]:
  "input_devices (prepare_for_output a s) = input_devices s"
  "output_devices (prepare_for_output a s) = output_devices s"
  "last_wiring (prepare_for_output a s) = last_wiring s"
  "next_dev (prepare_for_output a s) = next_dev s"
  "in_ports (prepare_for_output a s) = in_ports s"
  "out_ports (prepare_for_output a s) = out_ports s"
  "full_name (devices (prepare_for_output a s) x) = full_name (devices s x)"
  "port (devices (prepare_for_output a s) x) = port (devices s x)"
  "input_h (devices (prepare_for_output a s) x) = input_h (devices s x)"
  "forwards (devices (prepare_for_output a s) x) = forwards (devices s x)"
  by (simp_all add: prepare_for_output_def new_midi_def)

lemma prepare_for_output_effect:
  "output_h (devices (prepare_for_output a s) x) =
     (if x = a \<and> output_h (devices s a) = None then Some (next_handle s)
      else output_h (devices s x))"
  "next_handle (prepare_for_output a s) =
     (if output_h (devices s a) = None then Suc (next_handle s) else next_handle s)"
  "trace (prepare_for_output a s) =
     trace s @ (if output_h (devices s a) = None
                then [OpenOut (next_handle s) (port (devices s a))] else [])"
  by (simp_all add: prepare_for_output_def new_midi_def)

lemma forward_messages_frame [simp]:
  "input_devices (forward_messages a out ch s) = input_devices s"
  "output_devices (forward_messages a out ch s) = output_devices s"
  "last_wiring (forward_messages a out ch s) = last_wiring s"
  "next_dev (forward_messages a out ch s) = next_dev s"
  "in_ports (forward_messages a out ch s) = in_ports s"
  "out_ports (forward_messages a out ch s) = out_ports s"
  "full_name (devices (forward_messages a out ch s) x) = full_name (devices s x)"
  "port (devices (forward_messages a out ch s) x) = port (devices s x)"
  by (simp_all add: forward_messages_def new_midi_def Let_def)

lemma forward_messages_effect:
  "forwards (devices (forward_messages a out ch s) x) =
     forwards (devices s x) @ (if x = a then [(out, ch)] else [])"
  "input_h (devices (forward_messages a out ch s) x) =
     (if x = a then Some (next_handle (prepare_for_output out s)) else input_h (devices s x))"
  "output_h (devices (forward_messages a out ch s) x) =
     output_h (devices (prepare_for_output out s) x)"
  "next_handle (forward_messages a out ch s) = Suc (next_handle (prepare_for_output out s))"
  "trace (forward_messages a out ch s) =
     trace (prepare_for_output out s) @
       [OpenIn (next_handle (prepare_for_output out s)) (port (devices s a)),
        SetCallback (next_handle (prepare_for_output out s)) a]"
  by (simp_all add: forward_messages_def new_midi_def Let_def)

lemma register_loop_frame [simp]:
  "last_wiring (register_loop wl s) = last_wiring s"
  "next_dev (register_loop wl s) = next_dev s"
  "in_ports (register_loop wl s) = in_ports s"
  "out_ports (register_loop wl s) = out_ports s"
  "full_name (devices (register_loop wl s) x) = full_name (devices s x)"
  "port (devices (register_loop wl s) x) = port (devices s x)"
  by (induction wl s rule: register_loop.induct; simp)+

lemma register_loop_input_devices:
  "input_devices (register_loop wl s) = input_devices s @ map fst wl"
  by (induction wl s rule: register_loop.induct) simp_all

lemma register_loop_output_devices:
  "output_devices (register_loop wl s) = output_devices s @ map (\<lambda>r. fst (snd r)) wl"
  by (induction wl s rule: register_loop.induct) simp_all

lemma register_loop_forwards:
  "forwards (devices (register_loop wl s) x) =
     forwards (devices s x) @ map snd (filter (\<lambda>r. fst r = x) wl)"
  by (induction wl s rule: register_loop.induct) (simp_all add: forward_messages_effect)

lemma register_loop_trace:
  "\<exists>es. trace (register_loop wl s) = trace s @ es \<and> (\<forall>e\<in>set es. \<not> is_Stderr e)"
proof (induction wl s rule: register_loop.induct)
  case (1 s)
  then show ?case by simp
next
  case (2 in_d out_d chan rest s)
  let ?s2 = "s\<lparr>input_devices := input_devices s @ [in_d],
               output_devices := output_devices s @ [out_d]\<rparr>"
  let ?t = "forward_messages in_d out_d chan ?s2"
  from 2 [of "s\<lparr>input_devices := input_devices s @ [in_d]\<rparr>" ?s2]
  obtain es where es: "trace (register_loop rest ?t) = trace ?t @ es" "\<forall>e\<in>set es. \<not> is_Stderr e"
    by auto
  obtain fs where fs: "trace ?t = trace s @ fs" "\<forall>e\<in>set fs. \<not> is_Stderr e"
    by (simp add: forward_messages_effect prepare_for_output_effect)
  have "trace (register_loop ((in_d, out_d, chan) # rest) s) = trace s @ (fs @ es)"
    using es fs by simp
  moreover have "\<forall>e\<in>set (fs @ es). \<not> is_Stderr e" using es fs by auto
  ultimately show ?case by blast
qed

section \<open>wire\<close>

lemma wire_eq:
  "wire w s =
     (case resolve_loop w (input_device_list s) (output_device_list s) [] (after_discovery w s) of
        (Inl e, s3) \<Rightarrow> (Inl e, s3)
      | (Inr wire_list, s3) \<Rightarrow> (Inr (), register_loop wire_list s3))"
  by (simp add: wire_def discover_input_devices_def discover_output_devices_def new_midi_def
      discover_devices_eq input_device_list_def output_device_list_def after_discovery_def
      add.assoc)

lemma after_discovery_frame [simp]:
  "input_devices (after_discovery w s) = input_devices s"
  "output_devices (after_discovery w s) = output_devices s"
  "last_wiring (after_discovery w s) = Some w"
  "trace (after_discovery w s) = trace s"
  "in_ports (after_discovery w s) = in_ports s"
  "out_ports (after_discovery w s) = out_ports s"
  "next_dev (after_discovery w s) = next_dev s + length (in_ports s) + length (out_ports s)"
  "next_handle (after_discovery w s) = Suc (Suc (next_handle s))"
  by (simp_all add: after_discovery_def)

lemma after_discovery_devices:
  "devices (after_discovery w s) a =
     (if next_dev s \<le> a \<and> a < next_dev s + length (in_ports s)
      then MidiDevice_init (in_ports s ! (a - next_dev s)) (a - next_dev s)
      else if next_dev s + length (in_ports s) \<le> a
            \<and> a < next_dev s + length (in_ports s) + length (out_ports s)
      then MidiDevice_init (out_ports s ! (a - (next_dev s + length (in_ports s))))
             (a - (next_dev s + length (in_ports s)))
      else devices s a)"
  by (auto simp: after_discovery_def discovered_def)

lemma matches_name_only: "full_name d = full_name d' \<Longrightarrow> matches d spec = matches d' spec"
  by (cases spec) simp_all

lemma filter_upt_shift:
  "filter P [b ..< b + n] = map (\<lambda>k. b + k) (filter (\<lambda>k. P (b + k)) [0 ..< n])"
proof -
  have "[b ..< b + n] = map (\<lambda>k. b + k) [0 ..< n]"
    by (simp add: map_add_upt add.commute)
  then show ?thesis by (simp add: filter_map comp_def)
qed

lemma hits_input_device_list:
  "hits spec (input_device_list s) (after_discovery w s) = in_hits s spec"
proof -
  have "filter (\<lambda>k. matches (devices (after_discovery w s) (next_dev s + k)) spec) [0..<length (in_ports s)]
      = filter (\<lambda>k. matches (MidiDevice_init (in_ports s ! k) k) spec) [0..<length (in_ports s)]"
    by (rule filter_cong) (simp_all add: after_discovery_devices)
  then show ?thesis
    by (simp add: hits_def input_device_list_def in_hits_def port_hits_def filter_upt_shift)
qed

lemma hits_output_device_list:
  "hits spec (output_device_list s) (after_discovery w s) = out_hits s spec"
proof -
  have "filter (\<lambda>k. matches (devices (after_discovery w s) (next_dev s + length (in_ports s) + k)) spec)
          [0..<length (out_ports s)]
      = filter (\<lambda>k. matches (MidiDevice_init (out_ports s ! k) k) spec) [0..<length (out_ports s)]"
    by (rule filter_cong) (simp_all add: after_discovery_devices)
  then show ?thesis
    by (simp add: hits_def output_device_list_def out_hits_def port_hits_def filter_upt_shift)
qed

lemma hits_after_discovery:
  "(\<lambda>sp. hits sp (input_device_list s) (after_discovery w s)) = in_hits s"
  "(\<lambda>sp. hits sp (output_device_list s) (after_discovery w s)) = out_hits s"
  by (simp_all add: fun_eq_iff hits_input_device_list hits_output_device_list)

lemma wire_unambiguous:
  assumes "unambiguous_by (in_hits s) (out_hits s) w"
  shows "wire w s =
     (Inr (), register_loop (routes_by (in_hits s) (out_hits s) w)
                ((after_discovery w s)\<lparr>trace := trace s @ diags_by (in_hits s) (out_hits s) w\<rparr>))"
  using assms
  by (simp add: wire_eq resolve_unambiguous hits_after_discovery)

lemma wire_ambiguous_in:
  assumes "unambiguous_by (in_hits s) (out_hits s) pre"
    and "1 < length (in_hits s isp)"
    and "w = pre @ (isp, ch, osp) # post"
  shows "wire w s =
     (Inl (MoreThanOneMatch isp),
      (after_discovery w s)\<lparr>trace := trace s @ diags_by (in_hits s) (out_hits s) pre\<rparr>)"
proof -
  let ?s2 = "after_discovery w s"
  let ?s3 = "?s2\<lparr>trace := trace ?s2 @ diags_by (in_hits s) (out_hits s) pre\<rparr>"
  have "1 < length (hits isp (input_device_list s) ?s3)"
    using assms(2) by (simp add: hits_input_device_list)
  then have "resolve_loop ((isp, ch, osp) # post) (input_device_list s) (output_device_list s)
          ([] @ routes_by (in_hits s) (out_hits s) pre) ?s3 = (Inl (MoreThanOneMatch isp), ?s3)"
    by (rule resolve_ambiguous_in)
  then show ?thesis
    using assms(1)
    by (simp add: wire_eq assms(3) resolve_prefix hits_after_discovery)
qed

lemma wire_ambiguous_out:
  assumes "unambiguous_by (in_hits s) (out_hits s) pre"
    and "length (in_hits s isp) \<le> 1"
    and "1 < length (out_hits s osp)"
    and "w = pre @ (isp, ch, osp) # post"
  shows "wire w s =
     (Inl (MoreThanOneMatch osp),
      (after_discovery w s)\<lparr>trace := trace s @ diags_by (in_hits s) (out_hits s) pre\<rparr>)"
proof -
  let ?s2 = "after_discovery w s"
  let ?s3 = "?s2\<lparr>trace := trace ?s2 @ diags_by (in_hits s) (out_hits s) pre\<rparr>"
  have "length (hits isp (input_device_list s) ?s3) \<le> 1"
    and "1 < length (hits osp (output_device_list s) ?s3)"
    using assms(2,3) by (simp_all add: hits_input_device_list hits_output_device_list)
  then have "resolve_loop ((isp, ch, osp) # post) (input_device_list s) (output_device_list s)
          ([] @ routes_by (in_hits s) (out_hits s) pre) ?s3 = (Inl (MoreThanOneMatch osp), ?s3)"
    by (rule resolve_ambiguous_out)
  then show ?thesis
    using assms(1)
    by (simp add: wire_eq assms(4) resolve_prefix hits_after_discovery)
qed

lemma wire_fails_frame:
  assumes "fst (wire w s) = Inl e"
  shows "\<exists>ds spec. snd (wire w s) = (after_discovery w s)\<lparr>trace := trace s @ ds\<rparr>
           \<and> (\<forall>ev\<in>set ds. is_Stderr ev) \<and> e = MoreThanOneMatch spec"
proof -
  let ?r = "resolve_loop w (input_device_list s) (output_device_list s) [] (after_discovery w s)"
  from assms have f: "fst ?r = Inl e"
    by (auto simp: wire_eq split: prod.splits sum.splits)
  then have s: "snd (wire w s) = snd ?r"
    by (auto simp: wire_eq split: prod.splits sum.splits)
  from resolve_frame [of w "input_device_list s" "output_device_list s" "[]" "after_discovery w s"]
  obtain ds where "snd ?r = (after_discovery w s)\<lparr>trace := trace s @ ds\<rparr>" "\<forall>ev\<in>set ds. is_Stderr ev"
    by auto
  with s resolve_error [OF f] show ?thesis by auto
qed

lemma wire_last_wiring: "last_wiring (snd (wire w s)) = Some w"
proof -
  let ?r = "resolve_loop w (input_device_list s) (output_device_list s) [] (after_discovery w s)"
  from resolve_frame [of w "input_device_list s" "output_device_list s" "[]" "after_discovery w s"]
  obtain ds where "snd ?r = (after_discovery w s)\<lparr>trace := trace s @ ds\<rparr>" by auto
  then have "last_wiring (snd ?r) = Some w" by simp
  then show ?thesis
    by (cases ?r) (auto simp: wire_eq split: sum.splits)
qed

lemma wire_ports:
  "in_ports (snd (wire w s)) = in_ports s" "out_ports (snd (wire w s)) = out_ports s"
proof -
  let ?r = "resolve_loop w (input_device_list s) (output_device_list s) [] (after_discovery w s)"
  from resolve_frame [of w "input_device_list s" "output_device_list s" "[]" "after_discovery w s"]
  obtain ds where "snd ?r = (after_discovery w s)\<lparr>trace := trace s @ ds\<rparr>" by auto
  then have "in_ports (snd ?r) = in_ports s" "out_ports (snd ?r) = out_ports s" by simp_all
  then show "in_ports (snd (wire w s)) = in_ports s" "out_ports (snd (wire w s)) = out_ports s"
    by (cases ?r; auto simp: wire_eq split: sum.splits)+
qed

section \<open>Ambiguous specs\<close>

text \<open>
  C5. Resolving a spec that more than one candidate matches raises; in \<open>wire\<close>, the first
  rule with such a spec (source side first) makes the whole call raise for that spec.
\<close>

theorem ambiguous_spec_raises:
  "(1 < length (hits spec device_list t) \<longrightarrow>
      find_matching_device spec device_list t = Inl (MoreThanOneMatch spec))
   \<and> (unambiguous_by (in_hits s) (out_hits s) pre
        \<and> 1 < length (port_hits isp (in_ports s)) \<longrightarrow>
      fst (wire (pre @ (isp, ch, osp) # post) s) = Inl (MoreThanOneMatch isp))
   \<and> (unambiguous_by (in_hits s) (out_hits s) pre
        \<and> length (port_hits isp (in_ports s)) \<le> 1
        \<and> 1 < length (port_hits osp (out_ports s)) \<longrightarrow>
      fst (wire (pre @ (isp, ch, osp) # post) s) = Inl (MoreThanOneMatch osp))"
proof (intro conjI impI)
  assume "1 < length (hits spec device_list t)"
  then show "find_matching_device spec device_list t = Inl (MoreThanOneMatch spec)"
    by (rule find_matching_device_ambiguous)
next
  assume "unambiguous_by (in_hits s) (out_hits s) pre \<and> 1 < length (port_hits isp (in_ports s))"
  then have "unambiguous_by (in_hits s) (out_hits s) pre" "1 < length (in_hits s isp)"
    by (simp_all add: in_hits_def)
  from wire_ambiguous_in [OF this refl]
  show "fst (wire (pre @ (isp, ch, osp) # post) s) = Inl (MoreThanOneMatch isp)" by simp
next
  assume "unambiguous_by (in_hits s) (out_hits s) pre
        \<and> length (port_hits isp (in_ports s)) \<le> 1
        \<and> 1 < length (port_hits osp (out_ports s))"
  then have "unambiguous_by (in_hits s) (out_hits s) pre" "length (in_hits s isp) \<le> 1"
    "1 < length (out_hits s osp)"
    by (simp_all add: in_hits_def out_hits_def)
  from wire_ambiguous_out [OF this refl]
  show "fst (wire (pre @ (isp, ch, osp) # post) s) = Inl (MoreThanOneMatch osp)" by simp
qed

theorem ambiguous_spec_raises_witness:
  "find_matching_device (Str ''pad'') [0, 1] (after_discovery wiring_pad rig_two_pads)
     = Inl (MoreThanOneMatch (Str ''pad''))
   \<and> fst (wire wiring_pad rig_two_pads) = Inl (MoreThanOneMatch (Str ''pad''))
   \<and> fst (wire [(Str ''kbd'', AllChannels, Str ''out'')] (Station [''kbd''] [''out1'', ''out2'']))
     = Inl (MoreThanOneMatch (Str ''out''))"
proof -
  have h1: "1 < length (hits (Str ''pad'') [0, 1] (after_discovery wiring_pad rig_two_pads))"
    using hits_input_device_list [of "Str ''pad''" rig_two_pads wiring_pad]
    by (simp add: input_device_list_def rig_two_pads_def Station_def in_hits_def) code_simp
  have h2: "unambiguous_by (in_hits rig_two_pads) (out_hits rig_two_pads) []
      \<and> 1 < length (port_hits (Str ''pad'') (in_ports rig_two_pads))"
    by code_simp
  have h3: "unambiguous_by (in_hits (Station [''kbd''] [''out1'', ''out2'']))
        (out_hits (Station [''kbd''] [''out1'', ''out2''])) []
      \<and> length (port_hits (Str ''kbd'') (in_ports (Station [''kbd''] [''out1'', ''out2'']))) \<le> 1
      \<and> 1 < length (port_hits (Str ''out'') (out_ports (Station [''kbd''] [''out1'', ''out2''])))"
    by code_simp
  from h1 h2 h3
    ambiguous_spec_raises [where spec = "Str ''pad''" and device_list = "[0, 1]"
      and t = "after_discovery wiring_pad rig_two_pads" and s = rig_two_pads and pre = "[]"
      and isp = "Str ''pad''" and ch = AllChannels and osp = "Str ''out1''" and post = "[]"]
    ambiguous_spec_raises [where spec = "Str ''pad''" and device_list = "[0, 1]"
      and t = "after_discovery wiring_pad rig_two_pads"
      and s = "Station [''kbd''] [''out1'', ''out2'']" and pre = "[]"
      and isp = "Str ''kbd''" and ch = AllChannels and osp = "Str ''out''" and post = "[]"]
  show ?thesis by (simp add: wiring_pad_def)
qed

text \<open>
  C7 (as stated, refuted). After a successful \<open>wire\<close> of one wiring, a \<open>wire\<close> of another
  that raises leaves the second, failed wiring as the remembered one.
\<close>

theorem wire_failure_keeps_last_wiring_counterexample:
  "fst (wire wiring_padA rig_two_pads) = Inr ()
   \<and> last_wiring (snd (wire wiring_padA rig_two_pads)) = Some wiring_padA
   \<and> fst (wire wiring_pad (snd (wire wiring_padA rig_two_pads)))
       = Inl (MoreThanOneMatch (Str ''pad''))
   \<and> last_wiring (snd (wire wiring_pad (snd (wire wiring_padA rig_two_pads))))
       = Some wiring_pad
   \<and> wiring_pad \<noteq> wiring_padA"
proof -
  let ?s1 = "snd (wire wiring_padA rig_two_pads)"
  have "unambiguous_by (in_hits rig_two_pads) (out_hits rig_two_pads) wiring_padA"
    by code_simp
  then have a: "fst (wire wiring_padA rig_two_pads) = Inr ()"
    by (simp add: wire_unambiguous)
  have "port_hits (Str ''pad'') (in_ports rig_two_pads) = [0, 1]"
    by code_simp
  then have "1 < length (in_hits ?s1 (Str ''pad''))"
    by (simp add: in_hits_def wire_ports)
  moreover have "unambiguous_by (in_hits ?s1) (out_hits ?s1) []"
    by (simp add: unambiguous_by_def)
  ultimately have b: "fst (wire wiring_pad ?s1) = Inl (MoreThanOneMatch (Str ''pad''))"
    using wire_ambiguous_in [of ?s1 "[]" "Str ''pad''" wiring_pad AllChannels "Str ''out1''" "[]"]
    by (simp add: wiring_pad_def)
  have c: "wiring_pad \<noteq> wiring_padA"
    by (simp add: wiring_pad_def wiring_padA_def)
  from a b c show ?thesis by (simp add: wire_last_wiring)
qed

text \<open>
  C7 (amended). \<open>wire\<close> records its argument as the remembered wiring before it resolves
  any rule, so after \<open>wire w\<close> the remembered wiring is \<open>w\<close>, whether the call raised or
  not.
\<close>

theorem wire_records_wiring_first:
  "last_wiring (snd (wire w s)) = Some w
   \<and> (fst (wire w s) = Inl e \<longrightarrow> last_wiring (snd (wire w s)) = Some w)"
  by (simp add: wire_last_wiring)

theorem wire_records_wiring_first_witness:
  "fst (wire wiring_pad rig_two_pads) = Inl (MoreThanOneMatch (Str ''pad''))
   \<and> last_wiring (snd (wire wiring_pad rig_two_pads)) = Some wiring_pad"
proof -
  have "unambiguous_by (in_hits rig_two_pads) (out_hits rig_two_pads) []"
    and "1 < length (in_hits rig_two_pads (Str ''pad''))"
    by code_simp+
  then have "fst (wire wiring_pad rig_two_pads) = Inl (MoreThanOneMatch (Str ''pad''))"
    using wire_ambiguous_in [of rig_two_pads "[]" "Str ''pad''" wiring_pad AllChannels "Str ''out1''" "[]"]
    by (simp add: wiring_pad_def)
  with wire_records_wiring_first [of wiring_pad rig_two_pads "MoreThanOneMatch (Str ''pad'')"]
  show ?thesis by simp
qed

text \<open>
  C4 (as stated, refuted). The first rule resolves to one device on each side, the second
  rule is ambiguous: the call raises, and the route of the first rule was never
  registered (no device is active, no port was opened).
\<close>

theorem wire_ambiguous_earlier_routes_counterexample:
  "fst (wire wiring_kbd_then_pad rig_pads) = Inl (MoreThanOneMatch (Str ''pad''))
   \<and> in_hits rig_pads (Str ''kbd'') = [0]
   \<and> out_hits rig_pads (Str ''out1'') = [3]
   \<and> input_devices (snd (wire wiring_kbd_then_pad rig_pads)) = []
   \<and> output_devices (snd (wire wiring_kbd_then_pad rig_pads)) = []
   \<and> forwards (devices (snd (wire wiring_kbd_then_pad rig_pads)) 0) = []
   \<and> input_h (devices (snd (wire wiring_kbd_then_pad rig_pads)) 0) = None
   \<and> output_h (devices (snd (wire wiring_kbd_then_pad rig_pads)) 3) = None
   \<and> trace (snd (wire wiring_kbd_then_pad rig_pads)) = []"
proof -
  let ?pre = "[(Str ''kbd'', AllChannels, Str ''out1'')]"
  have u: "unambiguous_by (in_hits rig_pads) (out_hits rig_pads) ?pre"
    and a: "1 < length (in_hits rig_pads (Str ''pad''))"
    and d: "diags_by (in_hits rig_pads) (out_hits rig_pads) ?pre = []"
    and h: "in_hits rig_pads (Str ''kbd'') = [0]" "out_hits rig_pads (Str ''out1'') = [3]"
    by code_simp+
  have w: "wire wiring_kbd_then_pad rig_pads =
      (Inl (MoreThanOneMatch (Str ''pad'')),
       (after_discovery wiring_kbd_then_pad rig_pads)\<lparr>trace := trace rig_pads @ []\<rparr>)"
    using wire_ambiguous_in [OF u a, of wiring_kbd_then_pad AllChannels "Str ''out1''" "[]"] d
    by (simp add: wiring_kbd_then_pad_def)
  have r: "input_devices rig_pads = []" "output_devices rig_pads = []" "trace rig_pads = []"
    "next_dev rig_pads = 0" "in_ports rig_pads = [''kbd'', ''padA'', ''padB'']"
    "out_ports rig_pads = [''out1'']"
    by (simp_all add: rig_pads_def Station_def)
  show ?thesis
    by (simp add: w h r after_discovery_devices MidiDevice_init_def)
qed

text \<open>
  C4 (amended). When \<open>wire\<close> raises, it does so for an ambiguous spec and while still
  resolving: no rule of the call has been registered. The active device lists and every
  device that existed before are as they were, the newly discovered devices have no
  connection and no route, and nothing but diagnostics was emitted.
\<close>

theorem wire_ambiguous_registers_nothing:
  assumes "fst (wire w s) = Inl e"
  shows "(\<exists>spec. e = MoreThanOneMatch spec)
    \<and> input_devices (snd (wire w s)) = input_devices s
    \<and> output_devices (snd (wire w s)) = output_devices s
    \<and> (\<forall>a. a < next_dev s \<longrightarrow> devices (snd (wire w s)) a = devices s a)
    \<and> (\<forall>a. next_dev s \<le> a \<and> a < next_dev (snd (wire w s)) \<longrightarrow>
          input_h (devices (snd (wire w s)) a) = None
          \<and> output_h (devices (snd (wire w s)) a) = None
          \<and> forwards (devices (snd (wire w s)) a) = [])
    \<and> (\<forall>ev \<in> set (drop (length (trace s)) (trace (snd (wire w s)))). is_Stderr ev)"
proof -
  from wire_fails_frame [OF assms] obtain ds spec where
    s': "snd (wire w s) = (after_discovery w s)\<lparr>trace := trace s @ ds\<rparr>"
    and ds: "\<forall>ev\<in>set ds. is_Stderr ev" and e: "e = MoreThanOneMatch spec"
    by blast
  show ?thesis
    using ds e by (auto simp: s' after_discovery_devices MidiDevice_init_def)
qed

theorem wire_ambiguous_registers_nothing_witness:
  "fst (wire wiring_kbd_then_pad rig_two_pads) = Inl (MoreThanOneMatch (Str ''pad''))
   \<and> input_devices (snd (wire wiring_kbd_then_pad rig_two_pads)) = input_devices rig_two_pads
   \<and> output_devices (snd (wire wiring_kbd_then_pad rig_two_pads)) = output_devices rig_two_pads"
proof -
  let ?pre = "[(Str ''kbd'', AllChannels, Str ''out1'')]"
  have "unambiguous_by (in_hits rig_two_pads) (out_hits rig_two_pads) ?pre"
    and "1 < length (in_hits rig_two_pads (Str ''pad''))"
    by code_simp+
  then have f: "fst (wire wiring_kbd_then_pad rig_two_pads) = Inl (MoreThanOneMatch (Str ''pad''))"
    using wire_ambiguous_in [of rig_two_pads ?pre "Str ''pad''" wiring_kbd_then_pad AllChannels "Str ''out1''" "[]"]
    by (simp add: wiring_kbd_then_pad_def)
  from f wire_ambiguous_registers_nothing [OF f] show ?thesis by simp
qed

section \<open>Rules that match nothing\<close>

lemma diags_by_Stderr: "e \<in> set (diags_by hin hout w) \<Longrightarrow> is_Stderr e"
  by (auto simp: diags_by_def dest: rule_diags_Stderr)

lemma filter_Stderr_diags: "filter is_Stderr (diags_by hin hout w) = diags_by hin hout w"
  by (simp add: diags_by_Stderr)

lemma unambiguous_by_ports:
  "unambiguous_by (in_hits s) (out_hits s) w \<longleftrightarrow>
     (\<forall>(isp, ch, osp) \<in> set w.
        length (port_hits isp (in_ports s)) \<le> 1 \<and> length (port_hits osp (out_ports s)) \<le> 1)"
  by (auto simp: unambiguous_by_def list_all_iff in_hits_def out_hits_def)

text \<open>
  C6 (as stated, refuted). The first rule matches no input, the second resolves to one
  device on each side, the third is ambiguous: the call raises and the second rule is not
  applied.
\<close>

theorem wire_skip_applies_others_counterexample:
  "in_hits rig_pads (Str ''ghost'') = []
   \<and> in_hits rig_pads (Str ''kbd'') = [0]
   \<and> out_hits rig_pads (Str ''out1'') = [3]
   \<and> fst (wire wiring_ghost_kbd_pad rig_pads) = Inl (MoreThanOneMatch (Str ''pad''))
   \<and> input_devices (snd (wire wiring_ghost_kbd_pad rig_pads)) = []
   \<and> output_devices (snd (wire wiring_ghost_kbd_pad rig_pads)) = []
   \<and> forwards (devices (snd (wire wiring_ghost_kbd_pad rig_pads)) 0) = []
   \<and> trace (snd (wire wiring_ghost_kbd_pad rig_pads))
       = [Stderr (CantFindInput (Str ''ghost'')), Stderr Skipping]"
proof -
  let ?pre = "[(Str ''ghost'', AllChannels, Str ''out1''), (Str ''kbd'', AllChannels, Str ''out1'')]"
  have u: "unambiguous_by (in_hits rig_pads) (out_hits rig_pads) ?pre"
    and a: "1 < length (in_hits rig_pads (Str ''pad''))"
    and d: "diags_by (in_hits rig_pads) (out_hits rig_pads) ?pre
             = [Stderr (CantFindInput (Str ''ghost'')), Stderr Skipping]"
    and h: "in_hits rig_pads (Str ''ghost'') = []" "in_hits rig_pads (Str ''kbd'') = [0]"
      "out_hits rig_pads (Str ''out1'') = [3]"
    by code_simp+
  have w: "wire wiring_ghost_kbd_pad rig_pads =
      (Inl (MoreThanOneMatch (Str ''pad'')),
       (after_discovery wiring_ghost_kbd_pad rig_pads)\<lparr>trace := trace rig_pads @
          [Stderr (CantFindInput (Str ''ghost'')), Stderr Skipping]\<rparr>)"
    using wire_ambiguous_in [OF u a, of wiring_ghost_kbd_pad AllChannels "Str ''out1''" "[]"] d
    by (simp add: wiring_ghost_kbd_pad_def)
  have r: "input_devices rig_pads = []" "output_devices rig_pads = []" "trace rig_pads = []"
    "next_dev rig_pads = 0" "in_ports rig_pads = [''kbd'', ''padA'', ''padB'']"
    "out_ports rig_pads = [''out1'']"
    by (simp_all add: rig_pads_def Station_def)
  show ?thesis
    by (simp add: w h r after_discovery_devices MidiDevice_init_def)
qed

text \<open>
  C6 (amended). For every wiring in which no spec matches more than one discovered
  device, \<open>wire\<close> returns normally; each rule with a side that matches nothing prints its
  diagnostics and is skipped; every other rule is applied, in the order of the wiring:
  its two devices are appended to the active lists and its route to the source device.
\<close>

theorem wire_skips_unmatched_rules:
  assumes "\<forall>(isp, ch, osp) \<in> set w.
        length (port_hits isp (in_ports s)) \<le> 1 \<and> length (port_hits osp (out_ports s)) \<le> 1"
  shows "fst (wire w s) = Inr ()
    \<and> filter is_Stderr (drop (length (trace s)) (trace (snd (wire w s))))
        = diags_by (in_hits s) (out_hits s) w
    \<and> input_devices (snd (wire w s))
        = input_devices s @ map fst (routes_by (in_hits s) (out_hits s) w)
    \<and> output_devices (snd (wire w s))
        = output_devices s @ map (\<lambda>r. fst (snd r)) (routes_by (in_hits s) (out_hits s) w)
    \<and> (\<forall>a \<in> set (input_device_list s).
          forwards (devices (snd (wire w s)) a)
            = map snd (filter (\<lambda>r. fst r = a) (routes_by (in_hits s) (out_hits s) w)))"
proof -
  let ?routes = "routes_by (in_hits s) (out_hits s) w"
  let ?diags = "diags_by (in_hits s) (out_hits s) w"
  let ?s3 = "(after_discovery w s)\<lparr>trace := trace s @ ?diags\<rparr>"
  have u: "unambiguous_by (in_hits s) (out_hits s) w"
    using assms by (simp add: unambiguous_by_ports)
  have w: "wire w s = (Inr (), register_loop ?routes ?s3)"
    by (rule wire_unambiguous [OF u])
  obtain es where es: "trace (register_loop ?routes ?s3) = trace ?s3 @ es"
    "\<forall>e\<in>set es. \<not> is_Stderr e"
    using register_loop_trace [of ?routes ?s3] by blast
  have t: "filter is_Stderr (drop (length (trace s)) (trace (snd (wire w s)))) = ?diags"
    using es by (simp add: w filter_Stderr_diags)
  have f: "\<forall>a \<in> set (input_device_list s).
          forwards (devices (snd (wire w s)) a) = map snd (filter (\<lambda>r. fst r = a) ?routes)"
    by (auto simp: w register_loop_forwards after_discovery_devices input_device_list_def
        MidiDevice_init_def)
  show ?thesis
    using t f by (simp add: w register_loop_input_devices register_loop_output_devices)
qed

theorem wire_skips_unmatched_rules_witness:
  "fst (wire wiring_ghost_kbd rig_kbd) = Inr ()
   \<and> filter is_Stderr (drop (length (trace rig_kbd)) (trace (snd (wire wiring_ghost_kbd rig_kbd))))
       = [Stderr (CantFindInput (Str ''ghost'')), Stderr Skipping]
   \<and> input_devices (snd (wire wiring_ghost_kbd rig_kbd)) = [0]
   \<and> output_devices (snd (wire wiring_ghost_kbd rig_kbd)) = [1]
   \<and> forwards (devices (snd (wire wiring_ghost_kbd rig_kbd)) 0) = [(1, AllChannels)]"
proof -
  have h: "\<forall>(isp, ch, osp) \<in> set wiring_ghost_kbd.
        length (port_hits isp (in_ports rig_kbd)) \<le> 1
        \<and> length (port_hits osp (out_ports rig_kbd)) \<le> 1"
    by code_simp
  have d: "diags_by (in_hits rig_kbd) (out_hits rig_kbd) wiring_ghost_kbd
        = [Stderr (CantFindInput (Str ''ghost'')), Stderr Skipping]"
    and r: "routes_by (in_hits rig_kbd) (out_hits rig_kbd) wiring_ghost_kbd = [(0, 1, AllChannels)]"
    and i: "input_device_list rig_kbd = [0]"
    and l: "input_devices rig_kbd = []" "output_devices rig_kbd = []"
    by code_simp+
  from wire_skips_unmatched_rules [OF h] show ?thesis
    by (simp add: d r i l)
qed

section \<open>Forwarding\<close>

lemma send_message_open:
  "output_h (devices s a) = Some h \<Longrightarrow> send_message a m s = (Inr (), emit (SendMessage h m) s)"
  by (simp add: send_message_def)

lemma forward_loop_open:
  "\<forall>(out, ch) \<in> set fs. channel_eq ch (c + 1) \<longrightarrow> output_h (devices s out) \<noteq> None \<Longrightarrow>
   forward_loop fs c m s =
     (Inr (), s\<lparr>trace := trace s @
        map (\<lambda>(out, ch). SendMessage (the (output_h (devices s out))) m)
          (filter (\<lambda>(out, ch). channel_eq ch (c + 1)) fs)\<rparr>)"
proof (induction fs arbitrary: s)
  case Nil
  then show ?case by simp
next
  case (Cons f fs)
  obtain out ch where f: "f = (out, ch)" by (cases f)
  show ?case
  proof (cases "channel_eq ch (c + 1)")
    case True
    with Cons.prems f obtain h where h: "output_h (devices s out) = Some h" by auto
    let ?s' = "emit (SendMessage h m) s"
    have "forward_loop fs c m ?s' =
      (Inr (), ?s'\<lparr>trace := trace ?s' @
        map (\<lambda>(out, ch). SendMessage (the (output_h (devices ?s' out))) m)
          (filter (\<lambda>(out, ch). channel_eq ch (c + 1)) fs)\<rparr>)"
      using Cons.prems by (intro Cons.IH) auto
    then show ?thesis using True f h
      by (simp add: send_message_open emit_def)
  next
    case False
    then show ?thesis using Cons f by simp
  qed
qed

lemma channel_eq_iff: "channel_eq ch x \<longleftrightarrow> ch = AllChannels \<or> ch = Chan x"
  by (cases ch) auto

lemma mask_4: "(15::int) = mask 4"
  by (simp add: mask_eq_exp_minus_1)

lemma AND_15_mod: "(b::int) AND 0x0f = b mod 16"
  unfolding mask_4 by (simp add: take_bit_eq_mod flip: take_bit_eq_mask)

text \<open>
  C1. On a message (which has a first byte), the callback takes the low four bits of
  that byte as the channel nibble and sends the whole message, unchanged, on the output
  of every route whose channel entry is \<open>AllChannels\<close> or the nibble plus one, in the
  order of the routes, and on no other; each route is judged on its own. The outputs
  of those routes are open (they are opened before the route is registered).
\<close>

theorem callback_forwards:
  assumes "m \<noteq> []"
    and "\<forall>(out, ch) \<in> set (forwards (devices s a)).
           (ch = AllChannels \<or> ch = Chan ((hd m AND 0x0f) + 1)) \<longrightarrow> output_h (devices s out) \<noteq> None"
  shows "callback a (m, delta) u s =
     (Inr (), s\<lparr>trace := trace s @
        map (\<lambda>(out, ch). SendMessage (the (output_h (devices s out))) m)
          (filter (\<lambda>(out, ch). ch = AllChannels \<or> ch = Chan ((hd m AND 0x0f) + 1))
             (forwards (devices s a)))\<rparr>)
     \<and> (hd m AND 0x0f) = hd m mod 16"
proof -
  from assms(1) obtain b bs where m: "m = b # bs" by (cases m) auto
  have "\<forall>(out, ch) \<in> set (forwards (devices s a)).
      channel_eq ch ((b AND 0x0f) + 1) \<longrightarrow> output_h (devices s out) \<noteq> None"
    using assms(2) by (simp add: m channel_eq_iff)
  then have "forward_loop (forwards (devices s a)) (b AND 0x0f) m s =
     (Inr (), s\<lparr>trace := trace s @
        map (\<lambda>(out, ch). SendMessage (the (output_h (devices s out))) m)
          (filter (\<lambda>(out, ch). channel_eq ch ((b AND 0x0f) + 1)) (forwards (devices s a)))\<rparr>)"
    by (rule forward_loop_open)
  then show ?thesis
    by (simp add: callback_def m channel_eq_iff AND_15_mod)
qed

section \<open>A wired example\<close>

lemma wired_two_routes_eq:
  "wired_two_routes =
     register_loop [(0, 1, AllChannels), (0, 2, Chan 1)]
       (after_discovery wiring_two_routes rig_kbd_two_outs)"
proof -
  have u: "unambiguous_by (in_hits rig_kbd_two_outs) (out_hits rig_kbd_two_outs) wiring_two_routes"
    and r: "routes_by (in_hits rig_kbd_two_outs) (out_hits rig_kbd_two_outs) wiring_two_routes
            = [(0, 1, AllChannels), (0, 2, Chan 1)]"
    and d: "diags_by (in_hits rig_kbd_two_outs) (out_hits rig_kbd_two_outs) wiring_two_routes = []"
    by code_simp+
  have e: "(after_discovery wiring_two_routes rig_kbd_two_outs)\<lparr>trace := trace rig_kbd_two_outs @ []\<rparr>
      = after_discovery wiring_two_routes rig_kbd_two_outs"
    by (simp add: after_discovery_def rig_kbd_two_outs_def Station_def)
  show ?thesis
    unfolding wired_two_routes_def wire_unambiguous [OF u] r d e by (simp only: snd_conv)
qed

lemma rig_kbd_two_outs_simps:
  "input_devices rig_kbd_two_outs = []" "output_devices rig_kbd_two_outs = []"
  "trace rig_kbd_two_outs = []" "next_dev rig_kbd_two_outs = 0"
  "next_handle rig_kbd_two_outs = 0"
  "in_ports rig_kbd_two_outs = [''kbd'']" "out_ports rig_kbd_two_outs = [''out1'', ''out2'']"
  by (simp_all add: rig_kbd_two_outs_def Station_def)

lemma wired_two_routes_state:
  "forwards (devices wired_two_routes 0) = [(1, AllChannels), (2, Chan 1)]"
  "output_h (devices wired_two_routes (Suc 0)) = Some 2"
  "output_h (devices wired_two_routes 2) = Some 4"
  "input_h (devices wired_two_routes 0) = Some 5"
  "input_devices wired_two_routes = [0, 0]"
  "output_devices wired_two_routes = [1, 2]"
  "trace wired_two_routes =
     [OpenOut 2 0, OpenIn 3 0, SetCallback 3 0, OpenOut 4 1, OpenIn 5 0, SetCallback 5 0]"
  by (simp_all add: wired_two_routes_eq forward_messages_effect prepare_for_output_effect
      after_discovery_devices rig_kbd_two_outs_simps MidiDevice_init_def)

section \<open>Closing devices\<close>

lemma close_frame [simp]:
  "input_devices (close a s) = input_devices s"
  "output_devices (close a s) = output_devices s"
  "last_wiring (close a s) = last_wiring s"
  "next_dev (close a s) = next_dev s"
  "next_handle (close a s) = next_handle s"
  "in_ports (close a s) = in_ports s"
  "out_ports (close a s) = out_ports s"
  "full_name (devices (close a s) x) = full_name (devices s x)"
  "port (devices (close a s) x) = port (devices s x)"
  "forwards (devices (close a s) x) = forwards (devices s x)"
  by (simp_all add: close_def Let_def split: option.splits)

lemma close_effect:
  "input_h (devices (close a s) x) = (if x = a then None else input_h (devices s x))"
  "output_h (devices (close a s) x) = (if x = a then None else output_h (devices s x))"
  "trace (close a s) = trace s @ close_events (devices s a)"
  by (simp_all add: close_def close_events_def silence_def Let_def split: option.splits)

lemma close_all_frame [simp]:
  "input_devices (close_all ds s) = input_devices s"
  "output_devices (close_all ds s) = output_devices s"
  "last_wiring (close_all ds s) = last_wiring s"
  "next_dev (close_all ds s) = next_dev s"
  "next_handle (close_all ds s) = next_handle s"
  "in_ports (close_all ds s) = in_ports s"
  "out_ports (close_all ds s) = out_ports s"
  "full_name (devices (close_all ds s) x) = full_name (devices s x)"
  "port (devices (close_all ds s) x) = port (devices s x)"
  "forwards (devices (close_all ds s) x) = forwards (devices s x)"
  by (induction ds arbitrary: s; simp)+

lemma close_all_effect:
  "input_h (devices (close_all ds s) x) = (if x \<in> set ds then None else input_h (devices s x))"
  "output_h (devices (close_all ds s) x) = (if x \<in> set ds then None else output_h (devices s x))"
  "trace (close_all ds s) = trace s @ close_all_events ds s"
  by (induction ds arbitrary: s; simp add: close_effect)+

lemma close_all_append: "close_all (xs @ ys) s = close_all ys (close_all xs s)"
  by (induction xs arbitrary: s) simp_all

lemma close_input_devices_update:
  "close a (s\<lparr>input_devices := x\<rparr>) = (close a s)\<lparr>input_devices := x\<rparr>"
  by (simp add: close_def emit_def Let_def split: option.splits)

lemma close_all_input_devices_update:
  "close_all ds (s\<lparr>input_devices := x\<rparr>) = (close_all ds s)\<lparr>input_devices := x\<rparr>"
  by (induction ds arbitrary: s) (simp_all add: close_input_devices_update)

lemma reset_eq:
  "reset s = (close_all (input_devices s @ output_devices s) s)
               \<lparr>input_devices := [], output_devices := []\<rparr>"
  by (simp add: reset_def Let_def close_all_append close_all_input_devices_update)

lemma reset_frame [simp]:
  "input_devices (reset s) = []"
  "output_devices (reset s) = []"
  "last_wiring (reset s) = last_wiring s"
  "next_dev (reset s) = next_dev s"
  "next_handle (reset s) = next_handle s"
  "in_ports (reset s) = in_ports s"
  "out_ports (reset s) = out_ports s"
  "full_name (devices (reset s) x) = full_name (devices s x)"
  "port (devices (reset s) x) = port (devices s x)"
  "forwards (devices (reset s) x) = forwards (devices s x)"
  by (simp_all add: reset_eq)

lemma reset_effect:
  "input_h (devices (reset s) x) =
     (if x \<in> set (input_devices s) \<union> set (output_devices s) then None else input_h (devices s x))"
  "output_h (devices (reset s) x) =
     (if x \<in> set (input_devices s) \<union> set (output_devices s) then None else output_h (devices s x))"
  "trace (reset s) = trace s @ close_all_events (input_devices s @ output_devices s) s"
  by (simp_all add: reset_eq close_all_effect)

lemma filter_close_events:
  "filter (on_output c) (close_events dev) =
     (if output_h dev = Some c then silence c @ [CloseOut c] else [])"
  by (auto simp: close_events_def silence_def split: option.splits)

lemma close_all_events_none:
  "\<forall>d \<in> set ds. output_h (devices s d) \<noteq> Some c \<Longrightarrow>
   filter (on_output c) (close_all_events ds s) = []"
proof (induction ds arbitrary: s)
  case Nil
  then show ?case by simp
next
  case (Cons x ds)
  have "\<forall>d \<in> set ds. output_h (devices (close x s) d) \<noteq> Some c"
    using Cons.prems by (simp add: close_effect)
  then have "filter (on_output c) (close_all_events ds (close x s)) = []"
    by (rule Cons.IH)
  moreover have "output_h (devices s x) \<noteq> Some c"
    using Cons.prems by simp
  ultimately show ?case by (simp add: filter_close_events)
qed

lemma close_all_events_once:
  assumes "d \<in> set ds" and "output_h (devices s d) = Some c"
    and "\<forall>d' \<in> set ds. output_h (devices s d') = Some c \<longrightarrow> d' = d"
  shows "filter (on_output c) (close_all_events ds s) = silence c @ [CloseOut c]"
  using assms
proof (induction ds arbitrary: s)
  case Nil
  then show ?case by simp
next
  case (Cons x ds)
  have tail: "\<And>d'. d' \<in> set ds \<Longrightarrow> output_h (devices s d') = Some c \<Longrightarrow> d' = d"
    using Cons.prems(3) by (meson list.set_intros(2))
  have head: "output_h (devices s x) = Some c \<Longrightarrow> x = d"
    using Cons.prems(3) by (meson list.set_intros(1))
  have ev: "close_all_events (x # ds) s = close_events (devices s x) @ close_all_events ds (close x s)"
    by simp
  show ?case
  proof (cases "x = d")
    case True
    have "\<forall>d' \<in> set ds. output_h (devices (close x s) d') \<noteq> Some c"
    proof
      fix d' assume d': "d' \<in> set ds"
      show "output_h (devices (close x s) d') \<noteq> Some c"
      proof (cases "d' = x")
        case True
        then show ?thesis by (simp add: close_effect)
      next
        case False
        with tail [OF d'] True have "output_h (devices s d') \<noteq> Some c" by blast
        with False show ?thesis by (simp add: close_effect)
      qed
    qed
    then have "filter (on_output c) (close_all_events ds (close x s)) = []"
      by (rule close_all_events_none)
    moreover have "filter (on_output c) (close_events (devices s x)) = silence c @ [CloseOut c]"
      using True Cons.prems(2) by (simp add: filter_close_events)
    ultimately show ?thesis unfolding ev by simp
  next
    case False
    with head have x: "output_h (devices s x) \<noteq> Some c" by blast
    from False Cons.prems(1) have 1: "d \<in> set ds" by simp
    have 2: "output_h (devices (close x s) d) = Some c"
      using False Cons.prems(2) by (simp add: close_effect)
    have 3: "\<forall>d' \<in> set ds. output_h (devices (close x s) d') = Some c \<longrightarrow> d' = d"
    proof (intro ballI impI)
      fix d' assume d': "d' \<in> set ds" and o: "output_h (devices (close x s) d') = Some c"
      from o have "d' \<noteq> x" by (auto simp: close_effect)
      with o have "output_h (devices s d') = Some c" by (simp add: close_effect)
      with tail [OF d'] show "d' = d" by blast
    qed
    have "filter (on_output c) (close_all_events ds (close x s)) = silence c @ [CloseOut c]"
      using 1 2 3 by (rule Cons.IH)
    moreover have "filter (on_output c) (close_events (devices s x)) = []"
      using x by (simp add: filter_close_events)
    ultimately show ?thesis unfolding ev by simp
  qed
qed

lemma close_all_events_closed:
  "\<forall>d \<in> set ds. input_h (devices s d) = None \<and> output_h (devices s d) = None \<Longrightarrow>
   close_all_events ds s = []"
proof (induction ds arbitrary: s)
  case Nil
  then show ?case by simp
next
  case (Cons x ds)
  have "\<forall>d \<in> set ds. input_h (devices (close x s) d) = None
      \<and> output_h (devices (close x s) d) = None"
    using Cons.prems by (simp add: close_effect)
  then have "close_all_events ds (close x s) = []"
    by (rule Cons.IH)
  moreover have "close_events (devices s x) = []"
    using Cons.prems by (simp add: close_events_def)
  ultimately show ?case by simp
qed

text \<open>The two-route example: nibble 0 reaches both outputs, nibble 1 only the first.\<close>

theorem callback_forwards_witness:
  "callback 0 ([0x90, 60, 100], ()) () wired_two_routes =
     (Inr (), wired_two_routes\<lparr>trace := trace wired_two_routes @
        [SendMessage 2 [0x90, 60, 100], SendMessage 4 [0x90, 60, 100]]\<rparr>)
   \<and> callback 0 ([0x91, 60, 100], ()) () wired_two_routes =
     (Inr (), wired_two_routes\<lparr>trace := trace wired_two_routes @
        [SendMessage 2 [0x91, 60, 100]]\<rparr>)"
  using callback_forwards [of "[0x90, 60, 100]" wired_two_routes 0 "()" "()"]
    callback_forwards [of "[0x91, 60, 100]" wired_two_routes 0 "()" "()"]
  by (simp add: wired_two_routes_state)

section \<open>panic\<close>

lemma panic_loop_eq:
  "panic_loop h (enumerate k names) s =
     s\<lparr>trace := trace s @
        concat (map (\<lambda>p. OpenOut h p # silence h @ [CloseOut h]) [k ..< k + length names])\<rparr>"
proof (induction names arbitrary: k s)
  case Nil
  then show ?case by simp
next
  case (Cons n names)
  have "[k ..< Suc (k + length names)] = k # [Suc k ..< Suc (k + length names)]"
    by (rule upt_conv_Cons) simp
  then show ?case
    by (simp add: Cons.IH emit_def silence_def del: upt_Suc)
qed

text \<open>
  C9. \<open>panic\<close> takes one new output handle and, for every output port that the driver
  reports, in port order, opens the port on it, sends the three silence messages and
  closes it. It reads nothing of the Station: the active device lists, the remembered
  wiring and the devices are as before.
\<close>

theorem panic_silences_every_port:
  "trace (panic s) = trace s @
      concat (map (\<lambda>p. [OpenOut (next_handle s) p,
                        SendMessage (next_handle s) [CONTROL_CHANGE, ALL_SOUND_OFF, 0],
                        SendMessage (next_handle s) [CONTROL_CHANGE, ALL_NOTES_OFF, 0],
                        SendMessage (next_handle s) [CONTROL_CHANGE, RESET_ALL_CONTROLLERS, 0],
                        CloseOut (next_handle s)])
                [0 ..< length (out_ports s)])
   \<and> input_devices (panic s) = input_devices s
   \<and> output_devices (panic s) = output_devices s
   \<and> last_wiring (panic s) = last_wiring s
   \<and> devices (panic s) = devices s
   \<and> next_dev (panic s) = next_dev s
   \<and> in_ports (panic s) = in_ports s
   \<and> out_ports (panic s) = out_ports s"
  by (simp add: panic_def new_midi_def panic_loop_eq silence_def)

lemma panic_frame [simp]:
  "input_devices (panic s) = input_devices s"
  "output_devices (panic s) = output_devices s"
  "last_wiring (panic s) = last_wiring s"
  "devices (panic s) = devices s"
  "next_dev (panic s) = next_dev s"
  "next_handle (panic s) = Suc (next_handle s)"
  "in_ports (panic s) = in_ports s"
  "out_ports (panic s) = out_ports s"
  by (simp_all add: panic_def new_midi_def panic_loop_eq)

section \<open>A second route on the same source\<close>

text \<open>
  C3 (the code at a wiring with two routes from one source). The second
  \<open>forward_messages\<close> on the keyboard opens its input port once more on a new handle and
  installs the callback on it; the device keeps only the new handle, and the first
  handle is never closed.
\<close>

theorem second_route_reopens_input:
  "trace wired_two_routes =
     [OpenOut 2 0, OpenIn 3 0, SetCallback 3 0, OpenOut 4 1, OpenIn 5 0, SetCallback 5 0]
   \<and> input_h (devices wired_two_routes 0) = Some 5
   \<and> forwards (devices wired_two_routes 0) = [(1, AllChannels), (2, Chan 1)]
   \<and> CloseIn 3 \<notin> set (trace wired_two_routes)"
  by (simp add: wired_two_routes_state)

section \<open>The invariant\<close>

lemma station_invI:
  assumes "\<And>a b c. output_h (devices s a) = Some c \<Longrightarrow> output_h (devices s b) = Some c \<Longrightarrow> a = b"
    and "\<And>a c. output_h (devices s a) = Some c \<Longrightarrow> c < next_handle s"
    and "\<And>d. d \<in> set (output_devices s) \<Longrightarrow> output_h (devices s d) \<noteq> None"
    and "\<And>a. next_dev s \<le> a \<Longrightarrow> input_h (devices s a) = None \<and> output_h (devices s a) = None"
    and "\<And>a. input_h (devices s a) \<noteq> None \<Longrightarrow> a \<in> set (input_devices s)"
    and "\<And>a out ch. input_h (devices s a) \<noteq> None \<Longrightarrow> (out, ch) \<in> set (forwards (devices s a))
           \<Longrightarrow> output_h (devices s out) \<noteq> None"
  shows "station_inv s"
  unfolding station_inv_def using assms by (intro conjI allI impI ballI) (blast+)

lemma station_invD:
  assumes "station_inv s"
  shows "output_h (devices s a) = Some c \<Longrightarrow> output_h (devices s b) = Some c \<Longrightarrow> a = b"
    and "output_h (devices s a) = Some c \<Longrightarrow> c < next_handle s"
    and "d \<in> set (output_devices s) \<Longrightarrow> output_h (devices s d) \<noteq> None"
    and "next_dev s \<le> a \<Longrightarrow> input_h (devices s a) = None"
    and "next_dev s \<le> a \<Longrightarrow> output_h (devices s a) = None"
    and "input_h (devices s a) \<noteq> None \<Longrightarrow> a \<in> set (input_devices s)"
    and "input_h (devices s a) \<noteq> None \<Longrightarrow> (out, ch) \<in> set (forwards (devices s a))
           \<Longrightarrow> output_h (devices s out) \<noteq> None"
  using assms unfolding station_inv_def by blast+

lemma station_inv_Station: "station_inv (Station ins outs)"
  by (simp add: station_inv_def Station_def MidiDevice_init_def)

lemma station_inv_trace [simp]: "station_inv (s\<lparr>trace := t\<rparr>) = station_inv s"
  by (simp add: station_inv_def)

lemma station_inv_ports [simp]:
  "station_inv (s\<lparr>in_ports := x\<rparr>) = station_inv s"
  "station_inv (s\<lparr>out_ports := y\<rparr>) = station_inv s"
  by (simp_all add: station_inv_def)

lemma after_discovery_handles:
  assumes "station_inv s"
  shows "input_h (devices (after_discovery w s) a) = input_h (devices s a)"
    and "output_h (devices (after_discovery w s) a) = output_h (devices s a)"
  using station_invD(4,5) [OF assms, of a]
  by (auto simp: after_discovery_devices MidiDevice_init_def)

lemma after_discovery_forwards:
  "a < next_dev s \<Longrightarrow> forwards (devices (after_discovery w s) a) = forwards (devices s a)"
  by (simp add: after_discovery_devices)

lemma station_inv_after_discovery:
  assumes "station_inv s"
  shows "station_inv (after_discovery w s)"
proof (rule station_invI)
  fix a b c
  assume "output_h (devices (after_discovery w s) a) = Some c"
    "output_h (devices (after_discovery w s) b) = Some c"
  then show "a = b"
    using station_invD(1) [OF assms] by (simp add: after_discovery_handles [OF assms])
next
  fix a c assume "output_h (devices (after_discovery w s) a) = Some c"
  then have "c < next_handle s"
    using station_invD(2) [OF assms] by (simp add: after_discovery_handles [OF assms])
  then show "c < next_handle (after_discovery w s)" by simp
next
  fix d assume "d \<in> set (output_devices (after_discovery w s))"
  then show "output_h (devices (after_discovery w s) d) \<noteq> None"
    using station_invD(3) [OF assms] by (simp add: after_discovery_handles [OF assms])
next
  fix a assume "next_dev (after_discovery w s) \<le> a"
  then have "next_dev s \<le> a" by simp
  then show "input_h (devices (after_discovery w s) a) = None
      \<and> output_h (devices (after_discovery w s) a) = None"
    using station_invD(4,5) [OF assms] by (simp add: after_discovery_handles [OF assms])
next
  fix a assume "input_h (devices (after_discovery w s) a) \<noteq> None"
  then show "a \<in> set (input_devices (after_discovery w s))"
    using station_invD(6) [OF assms] by (simp add: after_discovery_handles [OF assms])
next
  fix a out ch
  assume i: "input_h (devices (after_discovery w s) a) \<noteq> None"
    and f: "(out, ch) \<in> set (forwards (devices (after_discovery w s) a))"
  from i have i': "input_h (devices s a) \<noteq> None"
    by (simp add: after_discovery_handles [OF assms])
  then have "a < next_dev s"
    using station_invD(4) [OF assms, of a] by (cases "a < next_dev s") auto
  with f have "(out, ch) \<in> set (forwards (devices s a))"
    by (simp add: after_discovery_forwards)
  with i' show "output_h (devices (after_discovery w s) out) \<noteq> None"
    using station_invD(7) [OF assms] by (simp add: after_discovery_handles [OF assms])
qed

lemma register_step_inv:
  assumes inv: "station_inv s"
    and i: "i < next_dev s" and out: "out < next_dev s"
    and fresh: "input_h (devices s i) \<noteq> None \<or> forwards (devices s i) = []"
  shows "station_inv (forward_messages i out ch
           (s\<lparr>input_devices := input_devices s @ [i],
              output_devices := output_devices s @ [out]\<rparr>))"
proof -
  let ?s1 = "s\<lparr>input_devices := input_devices s @ [i],
               output_devices := output_devices s @ [out]\<rparr>"
  let ?t = "forward_messages i out ch ?s1"
  have oh: "\<And>x. output_h (devices ?t x) =
      (if x = out \<and> output_h (devices s out) = None then Some (next_handle s)
       else output_h (devices s x))"
    by (simp add: forward_messages_effect prepare_for_output_effect)
  have ih: "\<And>x. x \<noteq> i \<Longrightarrow> input_h (devices ?t x) = input_h (devices s x)"
    by (simp add: forward_messages_effect)
  have fw: "\<And>x. forwards (devices ?t x) = forwards (devices s x) @ (if x = i then [(out, ch)] else [])"
    by (simp add: forward_messages_effect)
  have nh: "next_handle s < next_handle ?t"
    by (simp add: forward_messages_effect prepare_for_output_effect)
  have grow: "\<And>x. output_h (devices s x) \<noteq> None \<Longrightarrow> output_h (devices ?t x) \<noteq> None"
    by (simp add: oh)
  have out_open: "output_h (devices ?t out) \<noteq> None"
    by (simp add: oh)
  show ?thesis
  proof (rule station_invI)
    fix a b c
    assume a: "output_h (devices ?t a) = Some c" and b: "output_h (devices ?t b) = Some c"
    show "a = b"
    proof (cases "output_h (devices s out) = None")
      case True
      show ?thesis
      proof (cases "a = out")
        case a_out: True
        with a True have c: "c = next_handle s" by (simp add: oh)
        show ?thesis
        proof (cases "b = out")
          case True
          with a_out show ?thesis by simp
        next
          case False
          with b have "output_h (devices s b) = Some c" by (simp add: oh)
          with station_invD(2) [OF inv] c show ?thesis by blast
        qed
      next
        case a_out: False
        with a have a': "output_h (devices s a) = Some c" by (simp add: oh)
        show ?thesis
        proof (cases "b = out")
          case True
          with b \<open>output_h (devices s out) = None\<close> have "c = next_handle s" by (simp add: oh)
          with station_invD(2) [OF inv] a' show ?thesis by blast
        next
          case False
          with b have "output_h (devices s b) = Some c" by (simp add: oh)
          with a' station_invD(1) [OF inv] show ?thesis by blast
        qed
      qed
    next
      case False
      with a b have "output_h (devices s a) = Some c" "output_h (devices s b) = Some c"
        by (simp_all add: oh)
      with station_invD(1) [OF inv] show ?thesis by blast
    qed
  next
    fix a c assume a: "output_h (devices ?t a) = Some c"
    have "c \<le> next_handle s"
    proof (cases "a = out \<and> output_h (devices s out) = None")
      case True
      with a show ?thesis by (simp add: oh)
    next
      case False
      with a have "output_h (devices s a) = Some c" by (simp add: oh)
      with station_invD(2) [OF inv] show ?thesis by (simp add: less_imp_le)
    qed
    with nh show "c < next_handle ?t" by simp
  next
    fix d assume "d \<in> set (output_devices ?t)"
    then have "d \<in> set (output_devices s) \<or> d = out" by auto
    then show "output_h (devices ?t d) \<noteq> None"
      using station_invD(3) [OF inv] grow out_open by blast
  next
    fix a assume a: "next_dev ?t \<le> a"
    then have "next_dev s \<le> a" by simp
    moreover from this i out have "a \<noteq> i" "a \<noteq> out" by simp_all
    ultimately show "input_h (devices ?t a) = None \<and> output_h (devices ?t a) = None"
      using station_invD(4,5) [OF inv, of a] by (simp add: oh ih)
  next
    fix a assume a: "input_h (devices ?t a) \<noteq> None"
    show "a \<in> set (input_devices ?t)"
    proof (cases "a = i")
      case True
      then show ?thesis by simp
    next
      case False
      with a have "input_h (devices s a) \<noteq> None" by (simp add: ih)
      with station_invD(6) [OF inv] show ?thesis by simp
    qed
  next
    fix a dst c
    assume a: "input_h (devices ?t a) \<noteq> None"
      and f: "(dst, c) \<in> set (forwards (devices ?t a))"
    show "output_h (devices ?t dst) \<noteq> None"
    proof (cases "a = i")
      case True
      from f True have "(dst, c) \<in> set (forwards (devices s i)) \<or> dst = out"
        by (auto simp: fw)
      then show ?thesis
      proof
        assume old: "(dst, c) \<in> set (forwards (devices s i))"
        with fresh have "input_h (devices s i) \<noteq> None" by auto
        with old station_invD(7) [OF inv] have "output_h (devices s dst) \<noteq> None" by blast
        then show ?thesis by (rule grow)
      next
        assume "dst = out"
        with out_open show ?thesis by simp
      qed
    next
      case False
      with a have "input_h (devices s a) \<noteq> None" by (simp add: ih)
      moreover from f False have "(dst, c) \<in> set (forwards (devices s a))" by (simp add: fw)
      ultimately have "output_h (devices s dst) \<noteq> None"
        using station_invD(7) [OF inv] by blast
      then show ?thesis by (rule grow)
    qed
  qed
qed

lemma register_loop_inv:
  assumes "station_inv s"
    and "\<forall>(i, out, ch) \<in> set wl. i < next_dev s \<and> out < next_dev s
           \<and> (input_h (devices s i) \<noteq> None \<or> forwards (devices s i) = [])"
  shows "station_inv (register_loop wl s)"
  using assms
proof (induction wl arbitrary: s)
  case Nil
  then show ?case by simp
next
  case (Cons r wl)
  obtain i out ch where r: "r = (i, out, ch)" by (cases r)
  let ?s1 = "s\<lparr>input_devices := input_devices s @ [i],
               output_devices := output_devices s @ [out]\<rparr>"
  let ?t = "forward_messages i out ch ?s1"
  from Cons.prems(2) have h: "i < next_dev s" "out < next_dev s"
    "input_h (devices s i) \<noteq> None \<or> forwards (devices s i) = []"
    by (simp_all add: r)
  have inv: "station_inv ?t"
    using Cons.prems(1) h by (rule register_step_inv)
  have side: "\<forall>(i', out', ch') \<in> set wl. i' < next_dev ?t \<and> out' < next_dev ?t
           \<and> (input_h (devices ?t i') \<noteq> None \<or> forwards (devices ?t i') = [])"
  proof (intro ballI, clarify)
    fix i' out' ch' assume m: "(i', out', ch') \<in> set wl"
    with Cons.prems(2) have h': "i' < next_dev s" "out' < next_dev s"
      "input_h (devices s i') \<noteq> None \<or> forwards (devices s i') = []"
      by auto
    show "i' < next_dev ?t \<and> out' < next_dev ?t
           \<and> (input_h (devices ?t i') \<noteq> None \<or> forwards (devices ?t i') = [])"
      using h' by (cases "i' = i") (simp_all add: forward_messages_effect)
  qed
  have "register_loop (r # wl) s = register_loop wl ?t" by (simp add: r)
  with Cons.IH [OF inv side] show ?case by simp
qed

lemma port_hits_bound: "k \<in> set (port_hits spec names) \<Longrightarrow> k < length names"
  by (simp add: port_hits_def)

lemma in_hits_range:
  "i \<in> set (in_hits s spec) \<Longrightarrow> next_dev s \<le> i \<and> i < next_dev s + length (in_ports s)"
  by (auto simp: in_hits_def dest: port_hits_bound)

lemma out_hits_range:
  "out \<in> set (out_hits s spec) \<Longrightarrow>
     next_dev s + length (in_ports s) \<le> out
     \<and> out < next_dev s + length (in_ports s) + length (out_ports s)"
  by (auto simp: out_hits_def dest: port_hits_bound)

lemma routes_by_mem:
  "(i, out, ch) \<in> set (routes_by hin hout w) \<Longrightarrow>
     \<exists>isp osp. i \<in> set (hin isp) \<and> out \<in> set (hout osp)"
  by (auto simp: routes_by_def)

lemma ambiguous_split:
  "\<not> unambiguous_by hin hout w \<Longrightarrow>
   \<exists>pre isp ch osp post. w = pre @ (isp, ch, osp) # post \<and> unambiguous_by hin hout pre
     \<and> (1 < length (hin isp) \<or> (length (hin isp) \<le> 1 \<and> 1 < length (hout osp)))"
proof (induction w)
  case Nil
  then show ?case by (simp add: unambiguous_by_def)
next
  case (Cons r w)
  obtain isp ch osp where r: "r = (isp, ch, osp)" by (cases r)
  show ?case
  proof (cases "length (hin isp) \<le> 1 \<and> length (hout osp) \<le> 1")
    case True
    with Cons.prems have "\<not> unambiguous_by hin hout w"
      by (simp add: r unambiguous_by_Cons)
    from Cons.IH [OF this] obtain pre isp' ch' osp' post where
      w: "w = pre @ (isp', ch', osp') # post" and u: "unambiguous_by hin hout pre"
      and a: "1 < length (hin isp') \<or> (length (hin isp') \<le> 1 \<and> 1 < length (hout osp'))"
      by blast
    have "r # w = (r # pre) @ (isp', ch', osp') # post" using w by simp
    moreover have "unambiguous_by hin hout (r # pre)"
      using True u by (simp add: r unambiguous_by_Cons)
    ultimately show ?thesis using a by blast
  next
    case False
    then have a: "1 < length (hin isp) \<or> (length (hin isp) \<le> 1 \<and> 1 < length (hout osp))"
      by linarith
    have "r # w = [] @ (isp, ch, osp) # w" by (simp add: r)
    moreover have "unambiguous_by hin hout []" by (simp add: unambiguous_by_def)
    ultimately show ?thesis using a by blast
  qed
qed

lemma wire_cases:
  obtains (ok) "unambiguous_by (in_hits s) (out_hits s) w"
      "wire w s = (Inr (), register_loop (routes_by (in_hits s) (out_hits s) w)
                ((after_discovery w s)\<lparr>trace := trace s @ diags_by (in_hits s) (out_hits s) w\<rparr>))"
    | (raise) spec ds where
      "wire w s = (Inl (MoreThanOneMatch spec), (after_discovery w s)\<lparr>trace := trace s @ ds\<rparr>)"
proof (cases "unambiguous_by (in_hits s) (out_hits s) w")
  case True
  from True wire_unambiguous [OF True] show ?thesis by (rule ok)
next
  case False
  from ambiguous_split [OF False] obtain pre isp ch osp post where
    w: "w = pre @ (isp, ch, osp) # post" and u: "unambiguous_by (in_hits s) (out_hits s) pre"
    and a: "1 < length (in_hits s isp)
           \<or> (length (in_hits s isp) \<le> 1 \<and> 1 < length (out_hits s osp))"
    by blast
  from a show ?thesis
  proof
    assume "1 < length (in_hits s isp)"
    from wire_ambiguous_in [OF u this w] show ?thesis by (rule raise)
  next
    assume "length (in_hits s isp) \<le> 1 \<and> 1 < length (out_hits s osp)"
    then have "length (in_hits s isp) \<le> 1" "1 < length (out_hits s osp)" by simp_all
    from wire_ambiguous_out [OF u this w] show ?thesis by (rule raise)
  qed
qed

lemma station_inv_wire:
  assumes "station_inv s"
  shows "station_inv (snd (wire w s))"
proof (cases rule: wire_cases [of s w])
  case ok
  let ?routes = "routes_by (in_hits s) (out_hits s) w"
  let ?s3 = "(after_discovery w s)\<lparr>trace := trace s @ diags_by (in_hits s) (out_hits s) w\<rparr>"
  have inv: "station_inv ?s3"
    using station_inv_after_discovery [OF assms] by simp
  have side: "\<forall>(i, out, ch) \<in> set ?routes. i < next_dev ?s3 \<and> out < next_dev ?s3
           \<and> (input_h (devices ?s3 i) \<noteq> None \<or> forwards (devices ?s3 i) = [])"
  proof (intro ballI, clarify)
    fix i out ch assume "(i, out, ch) \<in> set ?routes"
    from routes_by_mem [OF this] obtain isp osp where
      "i \<in> set (in_hits s isp)" "out \<in> set (out_hits s osp)" by blast
    from in_hits_range [OF this(1)] out_hits_range [OF this(2)]
    show "i < next_dev ?s3 \<and> out < next_dev ?s3
           \<and> (input_h (devices ?s3 i) \<noteq> None \<or> forwards (devices ?s3 i) = [])"
      by (simp add: after_discovery_devices MidiDevice_init_def)
  qed
  from register_loop_inv [OF inv side] show ?thesis by (simp add: ok(2))
next
  case (raise spec ds)
  then show ?thesis using station_inv_after_discovery [OF assms] by simp
qed

lemma station_inv_reset:
  assumes "station_inv s"
  shows "station_inv (reset s)"
proof (rule station_invI)
  fix a b c
  assume "output_h (devices (reset s) a) = Some c" "output_h (devices (reset s) b) = Some c"
  then have "output_h (devices s a) = Some c" "output_h (devices s b) = Some c"
    by (simp_all add: reset_effect split: if_splits)
  then show "a = b" by (rule station_invD(1) [OF assms])
next
  fix a c assume "output_h (devices (reset s) a) = Some c"
  then have "output_h (devices s a) = Some c" by (simp add: reset_effect split: if_splits)
  then show "c < next_handle (reset s)" using station_invD(2) [OF assms] by simp
next
  fix d assume "d \<in> set (output_devices (reset s))"
  then show "output_h (devices (reset s) d) \<noteq> None" by simp
next
  fix a assume "next_dev (reset s) \<le> a"
  then show "input_h (devices (reset s) a) = None \<and> output_h (devices (reset s) a) = None"
    using station_invD(4,5) [OF assms, of a] by (simp add: reset_effect)
next
  fix a assume a: "input_h (devices (reset s) a) \<noteq> None"
  then have "a \<notin> set (input_devices s)" "input_h (devices s a) \<noteq> None"
    by (simp_all add: reset_effect split: if_splits)
  with station_invD(6) [OF assms] show "a \<in> set (input_devices (reset s))" by blast
next
  fix a out ch assume a: "input_h (devices (reset s) a) \<noteq> None"
  then have "a \<notin> set (input_devices s)" "input_h (devices s a) \<noteq> None"
    by (simp_all add: reset_effect split: if_splits)
  with station_invD(6) [OF assms] show "output_h (devices (reset s) out) \<noteq> None" by blast
qed

lemma station_inv_panic:
  assumes "station_inv s"
  shows "station_inv (panic s)"
proof -
  have "\<And>a c. output_h (devices s a) = Some c \<Longrightarrow> c < Suc (next_handle s)"
    using station_invD(2) [OF assms] by (simp add: less_Suc_eq)
  then show ?thesis
    using assms unfolding station_inv_def by (simp only: panic_frame) blast
qed

lemma station_inv_rewire:
  assumes "station_inv s"
  shows "station_inv (snd (rewire x s))"
  using assms
  by (cases "last_wiring s") (simp_all add: rewire_def station_inv_wire station_inv_reset)

lemma forward_loop_frame:
  "\<exists>es. snd (forward_loop fs c m s) = s\<lparr>trace := trace s @ es\<rparr>"
proof (induction fs arbitrary: s)
  case Nil
  show ?case by (rule exI [of _ "[]"]) simp
next
  case (Cons f fs)
  obtain out ch where f: "f = (out, ch)" by (cases f)
  show ?case
  proof (cases "channel_eq ch (c + 1)")
    case False
    with Cons.IH [of s] show ?thesis by (simp add: f)
  next
    case True
    show ?thesis
    proof (cases "output_h (devices s out)")
      case None
      with True have "snd (forward_loop (f # fs) c m s) = s"
        by (simp add: f send_message_def)
      then show ?thesis by (intro exI [of _ "[]"]) simp
    next
      case (Some h)
      let ?s' = "emit (SendMessage h m) s"
      from Cons.IH [of ?s'] obtain es where
        "snd (forward_loop fs c m ?s') = ?s'\<lparr>trace := trace ?s' @ es\<rparr>" by blast
      then have "snd (forward_loop (f # fs) c m s) = s\<lparr>trace := trace s @ (SendMessage h m # es)\<rparr>"
        using True Some by (simp add: f send_message_def emit_def)
      then show ?thesis by (rule exI)
    qed
  qed
qed

lemma callback_frame: "\<exists>es. snd (callback a (m, d) u s) = s\<lparr>trace := trace s @ es\<rparr>"
proof (cases m)
  case Nil
  then have "snd (callback a (m, d) u s) = s" by (simp add: callback_def)
  then show ?thesis by (intro exI [of _ "[]"]) simp
next
  case (Cons b bs)
  with forward_loop_frame [of "forwards (devices s a)" "b AND 0x0f" m s]
  show ?thesis by (simp add: callback_def)
qed

lemma station_inv_callback:
  "station_inv s \<Longrightarrow> station_inv (snd (callback a (m, d) u s))"
  using callback_frame [of a m d u s] by auto

lemma reachable_station_inv: "reachable s \<Longrightarrow> station_inv s"
proof (induction rule: reachable.induct)
  case (init ins outs)
  show ?case by (rule station_inv_Station)
next
  case (wire s w)
  then show ?case by (simp add: station_inv_wire)
next
  case (reset s)
  then show ?case by (simp add: station_inv_reset)
next
  case (panic s)
  then show ?case by (simp add: station_inv_panic)
next
  case (rewire s)
  then show ?case by (simp add: station_inv_rewire)
next
  case (callback s a m)
  then show ?case by (simp add: station_inv_callback)
next
  case (replug s ins outs)
  then show ?case by simp
qed

section \<open>reset\<close>

text \<open>
  C2. In every state the program can reach, \<open>reset\<close> sends to each active output device,
  on its output handle, exactly All-Sound-Off, All-Notes-Off and Reset-All-Controllers,
  each a control change on channel 0 with value 0, in that order and once, however often
  the device is listed, and then closes the handle; nothing else happens on that handle.
  A \<open>reset\<close> straight after a \<open>reset\<close> emits nothing.
\<close>

theorem reset_silences_each_output_once:
  assumes "reachable s" and "d \<in> set (output_devices s)"
  shows "(\<exists>c. output_h (devices s d) = Some c
      \<and> filter (on_output c) (drop (length (trace s)) (trace (reset s)))
          = [SendMessage c [CONTROL_CHANGE, ALL_SOUND_OFF, 0],
             SendMessage c [CONTROL_CHANGE, ALL_NOTES_OFF, 0],
             SendMessage c [CONTROL_CHANGE, RESET_ALL_CONTROLLERS, 0],
             CloseOut c])
    \<and> output_h (devices (reset s) d) = None
    \<and> trace (reset (reset s)) = trace (reset s)
    \<and> (CONTROL_CHANGE AND 0x0f) = 0"
proof -
  have inv: "station_inv s" using assms(1) by (rule reachable_station_inv)
  from station_invD(3) [OF inv assms(2)] obtain c where c: "output_h (devices s d) = Some c"
    by blast
  let ?ds = "input_devices s @ output_devices s"
  have "d \<in> set ?ds" using assms(2) by simp
  moreover have "\<forall>d' \<in> set ?ds. output_h (devices s d') = Some c \<longrightarrow> d' = d"
    using station_invD(1) [OF inv _ c] by blast
  ultimately have "filter (on_output c) (close_all_events ?ds s) = silence c @ [CloseOut c]"
    using c by (intro close_all_events_once)
  then have 1: "filter (on_output c) (drop (length (trace s)) (trace (reset s)))
          = [SendMessage c [CONTROL_CHANGE, ALL_SOUND_OFF, 0],
             SendMessage c [CONTROL_CHANGE, ALL_NOTES_OFF, 0],
             SendMessage c [CONTROL_CHANGE, RESET_ALL_CONTROLLERS, 0],
             CloseOut c]"
    by (simp add: reset_effect silence_def)
  have 2: "output_h (devices (reset s) d) = None"
    using assms(2) by (simp add: reset_effect)
  have 3: "trace (reset (reset s)) = trace (reset s)"
    by (simp add: reset_effect(3) [of "reset s"])
  have 4: "(CONTROL_CHANGE AND 0x0f) = 0"
    by (simp add: CONTROL_CHANGE_def)
  from c 1 2 3 4 show ?thesis by blast
qed

lemma wired_shared_out_eq:
  "wired_shared_out =
     register_loop [(0, 2, AllChannels), (1, 2, AllChannels)]
       (after_discovery wiring_shared_out rig_shared_out)"
proof -
  have u: "unambiguous_by (in_hits rig_shared_out) (out_hits rig_shared_out) wiring_shared_out"
    and r: "routes_by (in_hits rig_shared_out) (out_hits rig_shared_out) wiring_shared_out
            = [(0, 2, AllChannels), (1, 2, AllChannels)]"
    and d: "diags_by (in_hits rig_shared_out) (out_hits rig_shared_out) wiring_shared_out = []"
    by code_simp+
  have e: "(after_discovery wiring_shared_out rig_shared_out)\<lparr>trace := trace rig_shared_out @ []\<rparr>
      = after_discovery wiring_shared_out rig_shared_out"
    by (simp add: after_discovery_def rig_shared_out_def Station_def)
  show ?thesis
    unfolding wired_shared_out_def wire_unambiguous [OF u] r d e by (simp only: snd_conv)
qed

lemma rig_shared_out_simps:
  "input_devices rig_shared_out = []" "output_devices rig_shared_out = []"
  "trace rig_shared_out = []" "next_dev rig_shared_out = 0"
  "next_handle rig_shared_out = 0"
  "in_ports rig_shared_out = [''kbd'', ''pad'']" "out_ports rig_shared_out = [''out1'']"
  by (simp_all add: rig_shared_out_def Station_def)

lemma wired_shared_out_state:
  "output_devices wired_shared_out = [2, 2]"
  "input_devices wired_shared_out = [0, 1]"
  "output_h (devices wired_shared_out 2) = Some 2"
  "output_h (devices wired_shared_out 0) = None"
  "output_h (devices wired_shared_out (Suc 0)) = None"
  "input_h (devices wired_shared_out 0) = Some 3"
  "input_h (devices wired_shared_out (Suc 0)) = Some 4"
  "input_h (devices wired_shared_out 2) = None"
  by (simp_all add: wired_shared_out_eq forward_messages_effect prepare_for_output_effect
      after_discovery_devices rig_shared_out_simps MidiDevice_init_def)

theorem reset_silences_each_output_once_witness:
  "output_devices wired_shared_out = [2, 2]
   \<and> output_h (devices wired_shared_out 2) = Some 2
   \<and> filter (on_output 2)
       (drop (length (trace wired_shared_out)) (trace (reset wired_shared_out)))
       = [SendMessage 2 [0xB0, 0x78, 0], SendMessage 2 [0xB0, 0x7B, 0],
          SendMessage 2 [0xB0, 0x79, 0], CloseOut 2]
   \<and> output_h (devices (reset wired_shared_out) 2) = None
   \<and> trace (reset (reset wired_shared_out)) = trace (reset wired_shared_out)"
proof -
  have r: "reachable wired_shared_out"
    unfolding wired_shared_out_def rig_shared_out_def
    by (intro reachable.wire reachable.init)
  have m: "2 \<in> set (output_devices wired_shared_out)"
    by (simp add: wired_shared_out_state)
  from reset_silences_each_output_once [OF r m] show ?thesis
    by (auto simp: wired_shared_out_state CONTROL_CHANGE_def ALL_SOUND_OFF_def
        ALL_NOTES_OFF_def RESET_ALL_CONTROLLERS_def)
qed

text \<open>
  The hypothesis of the forwarding theorem holds wherever a callback can fire: in a
  reachable state, a device whose input is open has all its routes on open outputs, so
  the callback on a message returns normally.
\<close>

lemma callback_returns_when_listening:
  assumes "reachable s" and "input_h (devices s a) \<noteq> None" and "m \<noteq> []"
  shows "fst (callback a (m, d) u s) = Inr ()"
proof -
  from assms(3) obtain b bs where m: "m = b # bs" by (cases m) auto
  have inv: "station_inv s" using assms(1) by (rule reachable_station_inv)
  have "\<forall>(out, ch) \<in> set (forwards (devices s a)).
      channel_eq ch ((b AND 0x0f) + 1) \<longrightarrow> output_h (devices s out) \<noteq> None"
    using station_invD(7) [OF inv assms(2)] by blast
  then have "forward_loop (forwards (devices s a)) (b AND 0x0f) m s =
     (Inr (), s\<lparr>trace := trace s @
        map (\<lambda>(out, ch). SendMessage (the (output_h (devices s out))) m)
          (filter (\<lambda>(out, ch). channel_eq ch ((b AND 0x0f) + 1)) (forwards (devices s a)))\<rparr>)"
    by (rule forward_loop_open)
  then show ?thesis by (simp add: callback_def m)
qed

section \<open>rewire\<close>

lemma never_wired_last_wiring: "never_wired s \<Longrightarrow> last_wiring s = None"
proof (induction rule: never_wired.induct)
  case (init ins outs)
  show ?case by (simp add: Station_def)
next
  case (reset s)
  then show ?case by simp
next
  case (panic s)
  then show ?case by simp
next
  case (rewire s)
  then show ?case by (simp add: rewire_def)
next
  case (callback s a m)
  from callback_frame [of a m "()" "()" s] obtain es where
    "snd (callback a (m, ()) () s) = s\<lparr>trace := trace s @ es\<rparr>" by blast
  with callback.IH show ?case by simp
next
  case (replug s ins outs)
  then show ?case by simp
qed

lemma wire_discovers:
  "next_dev (snd (wire w s)) = next_dev s + length (in_ports s) + length (out_ports s)"
  "k < length (in_ports s) \<Longrightarrow> full_name (devices (snd (wire w s)) (next_dev s + k)) = in_ports s ! k"
  "k < length (out_ports s) \<Longrightarrow>
     full_name (devices (snd (wire w s)) (next_dev s + length (in_ports s) + k)) = out_ports s ! k"
  by (cases rule: wire_cases [of s w]; simp add: after_discovery_devices MidiDevice_init_def)+

lemma wire_active_new:
  assumes "d \<in> set (input_devices (snd (wire w s))) \<union> set (output_devices (snd (wire w s)))"
  shows "d \<in> set (input_devices s) \<union> set (output_devices s) \<or> next_dev s \<le> d"
proof (cases rule: wire_cases [of s w])
  case ok
  let ?routes = "routes_by (in_hits s) (out_hits s) w"
  from assms have "d \<in> set (input_devices s) \<union> set (output_devices s)
      \<or> d \<in> fst ` set ?routes \<or> d \<in> (\<lambda>r. fst (snd r)) ` set ?routes"
    by (auto simp: ok(2) register_loop_input_devices register_loop_output_devices)
  moreover have "next_dev s \<le> d" if "d \<in> fst ` set ?routes"
  proof -
    from that obtain out ch where "(d, out, ch) \<in> set ?routes" by force
    from routes_by_mem [OF this] in_hits_range show ?thesis by blast
  qed
  moreover have "next_dev s \<le> d" if "d \<in> (\<lambda>r. fst (snd r)) ` set ?routes"
  proof -
    from that obtain i ch where "(i, d, ch) \<in> set ?routes" by force
    from routes_by_mem [OF this] obtain osp where "d \<in> set (out_hits s osp)" by blast
    from out_hits_range [OF this] show ?thesis by simp
  qed
  ultimately show ?thesis by blast
next
  case (raise spec ds)
  with assms show ?thesis by simp
qed

lemma rewire_discovers_anew:
  assumes "last_wiring s = Some w"
  shows "next_dev (snd (rewire x s)) = next_dev s + length (in_ports s) + length (out_ports s)
    \<and> (\<forall>k < length (in_ports s).
          full_name (devices (snd (rewire x s)) (next_dev s + k)) = in_ports s ! k)
    \<and> (\<forall>k < length (out_ports s).
          full_name (devices (snd (rewire x s)) (next_dev s + length (in_ports s) + k))
            = out_ports s ! k)
    \<and> (\<forall>d \<in> set (input_devices (snd (rewire x s))) \<union> set (output_devices (snd (rewire x s))).
          next_dev s \<le> d)"
proof -
  have r: "rewire x s = wire w (reset s)" using assms by (simp add: rewire_def)
  have "\<forall>d \<in> set (input_devices (snd (wire w (reset s))))
            \<union> set (output_devices (snd (wire w (reset s)))). next_dev s \<le> d"
  proof
    fix d assume "d \<in> set (input_devices (snd (wire w (reset s))))
            \<union> set (output_devices (snd (wire w (reset s))))"
    from wire_active_new [OF this] show "next_dev s \<le> d" by simp
  qed
  then show ?thesis
    using wire_discovers [where w = w and s = "reset s"] by (simp add: r)
qed

lemma failed_first_wire_eq:
  "wire wiring_pad rig_two_pads =
     (Inl (MoreThanOneMatch (Str ''pad'')), after_discovery wiring_pad rig_two_pads)"
proof -
  have u: "unambiguous_by (in_hits rig_two_pads) (out_hits rig_two_pads) []"
    and a: "1 < length (in_hits rig_two_pads (Str ''pad''))"
    and d: "diags_by (in_hits rig_two_pads) (out_hits rig_two_pads) [] = []"
    by code_simp+
  have e: "(after_discovery wiring_pad rig_two_pads)\<lparr>trace := trace rig_two_pads @ []\<rparr>
      = after_discovery wiring_pad rig_two_pads"
    by (simp add: after_discovery_def rig_two_pads_def Station_def)
  from wire_ambiguous_in [OF u a, of wiring_pad AllChannels "Str ''out1''" "[]"]
  show ?thesis unfolding d e by (simp add: wiring_pad_def)
qed

lemma rig_two_pads_simps:
  "input_devices rig_two_pads = []" "output_devices rig_two_pads = []"
  "trace rig_two_pads = []" "next_dev rig_two_pads = 0"
  "in_ports rig_two_pads = [''padA'', ''padB'']" "out_ports rig_two_pads = [''out1'']"
  by (simp_all add: rig_two_pads_def Station_def)

lemma failed_first_wire_after_discovery:
  "failed_first_wire = after_discovery wiring_pad rig_two_pads"
  unfolding failed_first_wire_def failed_first_wire_eq by simp

lemma failed_first_wire_state:
  "last_wiring failed_first_wire = Some wiring_pad"
  "input_devices failed_first_wire = []"
  "output_devices failed_first_wire = []"
  "trace failed_first_wire = []"
  "next_dev failed_first_wire = 3"
  "in_ports failed_first_wire = [''padA'', ''padB'']"
  "out_ports failed_first_wire = [''out1'']"
  unfolding failed_first_wire_after_discovery by (simp_all add: rig_two_pads_simps)

text \<open>
  C8 (as stated, refuted). The first \<open>wire\<close> raises and applies nothing: no device is
  active and no port was opened. A \<open>rewire\<close> then does not raise \<open>NoWiringSet\<close>: it tries
  the wiring of the failed call again (here it raises for the ambiguous spec once more,
  after a new discovery), and once the ambiguous port is gone it applies that wiring.
\<close>

theorem rewire_after_failed_wire_counterexample:
  "fst (wire wiring_pad rig_two_pads) = Inl (MoreThanOneMatch (Str ''pad''))
   \<and> input_devices failed_first_wire = []
   \<and> output_devices failed_first_wire = []
   \<and> trace failed_first_wire = []
   \<and> fst (rewire () failed_first_wire) = Inl (MoreThanOneMatch (Str ''pad''))
   \<and> fst (rewire () failed_first_wire) \<noteq> Inl NoWiringSet
   \<and> next_dev failed_first_wire = 3
   \<and> next_dev (snd (rewire () failed_first_wire)) = 6
   \<and> fst (rewire () failed_first_wire_replugged) = Inr ()
   \<and> input_devices (snd (rewire () failed_first_wire_replugged)) = [3]
   \<and> output_devices (snd (rewire () failed_first_wire_replugged)) = [4]
   \<and> forwards (devices (snd (rewire () failed_first_wire_replugged)) 3) = [(4, AllChannels)]"
proof -
  let ?F = "reset failed_first_wire"
  let ?R = "reset failed_first_wire_replugged"
  have rF: "rewire () failed_first_wire = wire wiring_pad ?F"
    by (simp add: rewire_def failed_first_wire_state)
  have "port_hits (Str ''pad'') [''padA'', ''padB''] = [0, 1]" by code_simp
  then have a: "1 < length (in_hits ?F (Str ''pad''))"
    by (simp add: in_hits_def failed_first_wire_state)
  have u: "unambiguous_by (in_hits ?F) (out_hits ?F) []"
    by (simp add: unambiguous_by_def)
  from wire_ambiguous_in [OF u a, of wiring_pad AllChannels "Str ''out1''" "[]"]
  have wF: "wire wiring_pad ?F = (Inl (MoreThanOneMatch (Str ''pad'')),
      (after_discovery wiring_pad ?F)\<lparr>trace := trace ?F @ diags_by (in_hits ?F) (out_hits ?F) []\<rparr>)"
    by (simp add: wiring_pad_def)
  have 1: "fst (rewire () failed_first_wire) = Inl (MoreThanOneMatch (Str ''pad''))"
    and 2: "next_dev (snd (rewire () failed_first_wire)) = 6"
    by (simp_all add: rF wF failed_first_wire_state)
  have rs: "last_wiring failed_first_wire_replugged = Some wiring_pad"
    "next_dev failed_first_wire_replugged = 3"
    "in_ports failed_first_wire_replugged = [''padA'']"
    "out_ports failed_first_wire_replugged = [''out1'']"
    by (simp_all add: failed_first_wire_replugged_def failed_first_wire_state)
  have rR: "rewire () failed_first_wire_replugged = wire wiring_pad ?R"
    by (simp add: rewire_def rs)
  have ih: "in_hits ?R = (\<lambda>spec. map (\<lambda>k. 3 + k) (port_hits spec [''padA'']))"
    and oh: "out_hits ?R = (\<lambda>spec. map (\<lambda>k. 3 + 1 + k) (port_hits spec [''out1'']))"
    by (simp_all add: fun_eq_iff in_hits_def out_hits_def rs)
  have uR: "unambiguous_by (in_hits ?R) (out_hits ?R) wiring_pad"
    unfolding ih oh by code_simp
  have routes: "routes_by (in_hits ?R) (out_hits ?R) wiring_pad = [(3, 4, AllChannels)]"
    unfolding ih oh by code_simp
  have 3: "fst (rewire () failed_first_wire_replugged) = Inr ()"
    and 4: "input_devices (snd (rewire () failed_first_wire_replugged)) = [3]"
    and 5: "output_devices (snd (rewire () failed_first_wire_replugged)) = [4]"
    and 6: "forwards (devices (snd (rewire () failed_first_wire_replugged)) 3) = [(4, AllChannels)]"
    by (simp_all add: rR wire_unambiguous [OF uR] routes register_loop_input_devices
        register_loop_output_devices register_loop_forwards after_discovery_devices rs
        MidiDevice_init_def del: register_loop.simps)
  from 1 2 3 4 5 6 show ?thesis
    by (simp add: failed_first_wire_eq failed_first_wire_state)
qed

text \<open>
  C8 (amended). \<open>rewire\<close> raises \<open>NoWiringSet\<close> and leaves the state as it is when \<open>wire\<close>
  has never been called. After any call \<open>wire w\<close>, whether it returned or raised, and
  whatever argument \<open>rewire\<close> is given, \<open>rewire\<close> is \<open>reset\<close> followed by \<open>wire w\<close>; only
  \<open>wire\<close> changes the remembered wiring. That \<open>wire\<close> discovers anew: it makes one new
  device for each port reported at that moment, and only such new devices are active
  afterwards.
\<close>

theorem rewire_after_any_wire:
  "(never_wired s \<longrightarrow> rewire x s = (Inl NoWiringSet, s))
   \<and> (last_wiring s = None \<longrightarrow> rewire x s = (Inl NoWiringSet, s))
   \<and> rewire x (snd (wire w s)) = wire w (reset (snd (wire w s)))
   \<and> (last_wiring s = Some w \<longrightarrow> rewire x s = wire w (reset s))
   \<and> rewire x s = rewire y s
   \<and> last_wiring (reset s) = last_wiring s
   \<and> last_wiring (panic s) = last_wiring s
   \<and> (last_wiring s = Some w \<longrightarrow>
        next_dev (snd (rewire x s)) = next_dev s + length (in_ports s) + length (out_ports s)
        \<and> (\<forall>k < length (in_ports s).
              full_name (devices (snd (rewire x s)) (next_dev s + k)) = in_ports s ! k)
        \<and> (\<forall>k < length (out_ports s).
              full_name (devices (snd (rewire x s)) (next_dev s + length (in_ports s) + k))
                = out_ports s ! k)
        \<and> (\<forall>d \<in> set (input_devices (snd (rewire x s)))
                  \<union> set (output_devices (snd (rewire x s))). next_dev s \<le> d))"
proof -
  have 1: "never_wired s \<longrightarrow> rewire x s = (Inl NoWiringSet, s)"
    by (auto simp: rewire_def dest: never_wired_last_wiring)
  have 2: "rewire x (snd (wire w s)) = wire w (reset (snd (wire w s)))"
    by (simp add: rewire_def wire_last_wiring)
  have 3: "rewire x s = rewire y s"
    by (simp add: rewire_def)
  from 1 2 3 rewire_discovers_anew [where s = s and w = w and x = x] show ?thesis
    by (simp add: rewire_def)
qed

lemma wired_two_routes_frame:
  "last_wiring wired_two_routes = Some wiring_two_routes"
  "next_dev wired_two_routes = 3"
  "in_ports wired_two_routes = [''kbd'']"
  "out_ports wired_two_routes = [''out1'', ''out2'']"
  by (simp_all add: wired_two_routes_eq rig_kbd_two_outs_simps)

theorem rewire_after_any_wire_witness:
  "rewire wiring_pad rig_kbd = (Inl NoWiringSet, rig_kbd)
   \<and> rewire wiring_pad wired_two_routes = wire wiring_two_routes (reset wired_two_routes)
   \<and> fst (rewire wiring_pad wired_two_routes) = Inr ()
   \<and> input_devices (snd (rewire wiring_pad wired_two_routes)) = [3, 3]
   \<and> output_devices (snd (rewire wiring_pad wired_two_routes)) = [4, 5]
   \<and> next_dev (snd (rewire wiring_pad wired_two_routes)) = 6
   \<and> full_name (devices (snd (rewire wiring_pad wired_two_routes)) 3) = ''kbd''
   \<and> full_name (devices (snd (rewire wiring_pad wired_two_routes)) 5) = ''out2''"
proof -
  let ?R = "reset wired_two_routes"
  have n: "never_wired rig_kbd"
    unfolding rig_kbd_def by (rule never_wired.init)
  have l: "last_wiring wired_two_routes = Some wiring_two_routes"
    by (rule wired_two_routes_frame)
  have ih: "in_hits ?R = (\<lambda>spec. map (\<lambda>k. 3 + k) (port_hits spec [''kbd'']))"
    and oh: "out_hits ?R = (\<lambda>spec. map (\<lambda>k. 3 + 1 + k) (port_hits spec [''out1'', ''out2'']))"
    by (simp_all add: fun_eq_iff in_hits_def out_hits_def wired_two_routes_frame)
  have u: "unambiguous_by (in_hits ?R) (out_hits ?R) wiring_two_routes"
    unfolding ih oh by code_simp
  have routes: "routes_by (in_hits ?R) (out_hits ?R) wiring_two_routes
      = [(3, 4, AllChannels), (3, 5, Chan 1)]"
    unfolding ih oh by code_simp
  have w: "fst (wire wiring_two_routes ?R) = Inr ()"
    "input_devices (snd (wire wiring_two_routes ?R)) = [3, 3]"
    "output_devices (snd (wire wiring_two_routes ?R)) = [4, 5]"
    by (simp_all add: wire_unambiguous [OF u] routes register_loop_input_devices
        register_loop_output_devices)
  note t1 = rewire_after_any_wire [where s = rig_kbd and x = wiring_pad and y = wiring_pad
      and w = "[]"]
  note t2 = rewire_after_any_wire [where s = wired_two_routes and x = wiring_pad
      and y = wiring_pad and w = wiring_two_routes]
  let ?X = "snd (rewire wiring_pad wired_two_routes)"
  from t1 n have a: "rewire wiring_pad rig_kbd = (Inl NoWiringSet, rig_kbd)"
    by blast
  from t2 l have b: "rewire wiring_pad wired_two_routes = wire wiring_two_routes ?R"
    by blast
  let ?W = wired_two_routes
  from t2 l have d1: "next_dev ?X = next_dev ?W + length (in_ports ?W) + length (out_ports ?W)"
    and d2: "\<forall>k < length (in_ports ?W).
          full_name (devices ?X (next_dev ?W + k)) = in_ports ?W ! k"
    and d3: "\<forall>k < length (out_ports ?W).
          full_name (devices ?X (next_dev ?W + length (in_ports ?W) + k)) = out_ports ?W ! k"
    by blast+
  have d: "next_dev ?X = 6"
    using d1 by (simp add: wired_two_routes_frame)
  have e: "full_name (devices ?X 3) = ''kbd''"
    using d2 [rule_format, of 0] by (simp add: wired_two_routes_frame)
  have f: "full_name (devices ?X 5) = ''out2''"
    using d3 [rule_format, of 1] by (simp add: wired_two_routes_frame)
  from a b d e f w show ?thesis
    by simp
qed

end
